theory Spec2Isabelle
  imports Main "HOL-Library.Char_ord"
begin

section \<open>Tokens and s-expressions\<close>

text \<open>
  A JavaScript string is modelled as a list of code units; only the code units 0..255 are
  covered (\<^typ>\<open>char\<close>), which contains every character the lexer accepts. The order on
  \<^typ>\<open>char\<close> is the order of the code units, as the comparisons \<^verbatim>\<open>c >= '0'\<close> of the
  source are.
\<close>

datatype TokenKind = Integer | Identifier | Syntax

record Token =
  tvalue :: string
  tkind :: TokenKind

text \<open>\<^verbatim>\<open>pair: [Sexp, Sexp | null]\<close>: the second component may be \<^verbatim>\<open>null\<close>.\<close>

datatype Sexp = Atom Token | Pair Sexp "Sexp option"

definition makeSexpPair :: "Sexp \<times> Sexp option \<Rightarrow> Sexp" where
  "makeSexpPair p = Pair (fst p) (snd p)"

definition makeSexpAtom :: "Token \<Rightarrow> Sexp" where
  "makeSexpAtom t = Atom t"

text \<open>
  Every \<^verbatim>\<open>throw new Error(...)\<close> of the source is a constructor. \<open>TypeError\<close> is the
  exception the JavaScript runtime raises when a property of \<^verbatim>\<open>undefined\<close> is read.
  \<open>OutsideModel\<close> is not an exception of the program: it marks the runs whose result this
  model does not determine (a number beyond the range in which double arithmetic on
  integers is exact, the comparison of function objects, a call of a function inherited
  from the prototype of the builtin table).
\<close>

datatype error =
    ExpectedSecond
  | UnknownToken string nat
  | ExpectedOpeningParenthesis string
  | ExpectedChild
  | TypeError
  | ExpectedLinkedList
  | UnknownFunction string
  | NotAFunction string
  | NotALinkedList string
  | ExpectedTrueBranch
  | ExpectedFalseBranch
  | ExpectedFunctionName
  | ExpectedFunctionBody
  | ExpectedArgumentList
  | PlusExpectsNumbers
  | MinusExpectsNumbers
  | UndefinedValue string
  | OutsideModel

fun pretty :: "Sexp \<Rightarrow> string" where
  "pretty (Atom t) = tvalue t"
| "pretty (Pair a None) = ''('' @ pretty a @ '' . NIL)''"
| "pretty (Pair a (Some d)) = ''('' @ pretty a @ '' . '' @ pretty d @ '')''"

fun append_sexp :: "Sexp option \<Rightarrow> Sexp option \<Rightarrow> error + Sexp" where
  "append_sexp None None = Inl ExpectedSecond"
| "append_sexp None (Some second) = Inr (makeSexpPair (second, None))"
| "append_sexp (Some (Atom t)) second = Inr (makeSexpPair (Atom t, second))"
| "append_sexp (Some (Pair a d)) second =
     (case append_sexp d second of
        Inl e \<Rightarrow> Inl e
      | Inr r \<Rightarrow> Inr (makeSexpPair (a, Some r)))"

section \<open>Lexer\<close>

definition is_digit :: "char \<Rightarrow> bool" where
  "is_digit c \<longleftrightarrow> c \<ge> CHR ''0'' \<and> c \<le> CHR ''9''"

definition is_letter :: "char \<Rightarrow> bool" where
  "is_letter c \<longleftrightarrow> (c \<ge> CHR ''a'' \<and> c \<le> CHR ''z'') \<or> (c \<ge> CHR ''A'' \<and> c \<le> CHR ''Z'')"

definition is_operator :: "char \<Rightarrow> bool" where
  "is_operator c \<longleftrightarrow>
     c = CHR ''+'' \<or> c = CHR ''-'' \<or> c = CHR ''*'' \<or> c = CHR ''&'' \<or>
     c = CHR ''$'' \<or> c = CHR ''%'' \<or> c = CHR ''<'' \<or> c = CHR ''=''"

definition is_whitespace :: "char \<Rightarrow> bool" where
  "is_whitespace c \<longleftrightarrow> c = CHR '' '' \<or> c = CHR 0x0A \<or> c = CHR 0x09 \<or> c = CHR 0x0D"

text \<open>\<^verbatim>\<open>program.substring(cursor, end)\<close>, for \<open>cursor \<le> end\<close>.\<close>

definition substring :: "string \<Rightarrow> nat \<Rightarrow> nat \<Rightarrow> string" where
  "substring program cursor end = take (end - cursor) (drop cursor program)"

text \<open>
  The \<^verbatim>\<open>while\<close> loops of \<^verbatim>\<open>lexInteger\<close> and \<^verbatim>\<open>lexIdentifier\<close>, as recursion on
  \<^verbatim>\<open>end\<close>. Past the end of the string \<^verbatim>\<open>program[end]\<close> is \<^verbatim>\<open>undefined\<close>, every
  comparison with it is false and the loop stops.
\<close>

function lexInteger_loop :: "string \<Rightarrow> nat \<Rightarrow> nat" where
  "lexInteger_loop program end =
     (if end < length program \<and> is_digit (program ! end)
      then lexInteger_loop program (end + 1)
      else end)"
  by pat_completeness auto
termination
  by (relation "measure (\<lambda>(program, end). length program - end)") auto

declare lexInteger_loop.simps [simp del]

definition lexInteger :: "string \<Rightarrow> nat \<Rightarrow> nat \<times> Token" where
  "lexInteger program cursor =
     (let end = lexInteger_loop program cursor
      in (end, \<lparr>tvalue = substring program cursor end, tkind = Integer\<rparr>))"

function lexIdentifier_loop :: "string \<Rightarrow> nat \<Rightarrow> nat \<Rightarrow> nat" where
  "lexIdentifier_loop program cursor end =
     (if end < length program \<and>
         (is_letter (program ! end) \<or> is_operator (program ! end) \<or>
          (end > cursor \<and> is_digit (program ! end)))
      then lexIdentifier_loop program cursor (end + 1)
      else end)"
  by pat_completeness auto
termination
  by (relation "measure (\<lambda>(program, cursor, end). length program - end)") auto

declare lexIdentifier_loop.simps [simp del]

definition lexIdentifier :: "string \<Rightarrow> nat \<Rightarrow> nat \<times> Token" where
  "lexIdentifier program cursor =
     (let end = lexIdentifier_loop program cursor cursor
      in (end, \<lparr>tvalue = substring program cursor end, tkind = Identifier\<rparr>))"

lemma lexInteger_loop_ge: "end \<le> lexInteger_loop program end"
proof (induction program "end" rule: lexInteger_loop.induct)
  case (1 program e)
  then show ?case
    by (subst lexInteger_loop.simps) (auto dest: Suc_leD)
qed

lemma lexIdentifier_loop_ge: "end \<le> lexIdentifier_loop program cursor end"
proof (induction program cursor "end" rule: lexIdentifier_loop.induct)
  case (1 program cursor e)
  then show ?case
    by (subst lexIdentifier_loop.simps) (auto dest: Suc_leD)
qed

text \<open>
  The \<^verbatim>\<open>for\<close> loop of \<^verbatim>\<open>lex\<close>, as recursion on \<^verbatim>\<open>i\<close>; \<^verbatim>\<open>tokens.push\<close> appends.
  After a token the source sets \<^verbatim>\<open>i = newCursor - 1\<close> and the loop header adds one.
\<close>

function lex_loop :: "string \<Rightarrow> nat \<Rightarrow> Token list \<Rightarrow> error + Token list" where
  "lex_loop program i tokens =
     (if \<not> i < length program then Inr tokens
      else
        let c = program ! i in
        if c = CHR '' '' \<or> c = CHR 0x0A \<or> c = CHR 0x09 \<or> c = CHR 0x0D
        then lex_loop program (i + 1) tokens
        else if c = CHR '')'' \<or> c = CHR ''(''
        then lex_loop program (i + 1) (tokens @ [\<lparr>tvalue = [c], tkind = Syntax\<rparr>])
        else if fst (lexInteger program i) \<noteq> i
        then lex_loop program (fst (lexInteger program i) - 1 + 1)
               (tokens @ [snd (lexInteger program i)])
        else if fst (lexIdentifier program i) \<noteq> i
        then lex_loop program (fst (lexIdentifier program i) - 1 + 1)
               (tokens @ [snd (lexIdentifier program i)])
        else Inl (UnknownToken (drop i program) i))"
  by pat_completeness auto
termination
proof (relation "measure (\<lambda>(program, i, tokens). length program - i)")
  fix program :: string and i :: nat and tokens :: "Token list" and c
  assume "\<not> \<not> i < length program" "fst (lexInteger program i) \<noteq> i"
  moreover have "i \<le> fst (lexInteger program i)"
    by (simp add: lexInteger_def Let_def lexInteger_loop_ge)
  ultimately show "((program, fst (lexInteger program i) - 1 + 1, tokens @ [snd (lexInteger program i)]),
          (program, i, tokens)) \<in> measure (\<lambda>(program, i, tokens). length program - i)"
    by simp
next
  fix program :: string and i :: nat and tokens :: "Token list" and c
  assume "\<not> \<not> i < length program" "fst (lexIdentifier program i) \<noteq> i"
  moreover have "i \<le> fst (lexIdentifier program i)"
    by (simp add: lexIdentifier_def Let_def lexIdentifier_loop_ge)
  ultimately show "((program, fst (lexIdentifier program i) - 1 + 1, tokens @ [snd (lexIdentifier program i)]),
          (program, i, tokens)) \<in> measure (\<lambda>(program, i, tokens). length program - i)"
    by simp
qed auto

declare lex_loop.simps [simp del]

definition lex :: "string \<Rightarrow> error + Token list" where
  "lex program = lex_loop program 0 []"

section \<open>Parser\<close>

text \<open>
  \<^verbatim>\<open>parse\<close> and its \<^verbatim>\<open>for\<close> loop. Reading \<^verbatim>\<open>tokens[cursor].value\<close> with the cursor
  past the last token raises the runtime's \<open>TypeError\<close>. The loop variable \<^verbatim>\<open>t\<close> is
  \<^verbatim>\<open>tokens[cursor]\<close> whenever the body runs. After a nested form the source sets
  \<^verbatim>\<open>cursor = newCursor\<close> and the loop header adds one.
\<close>

function parse :: "Token list \<Rightarrow> nat \<Rightarrow> error + (nat \<times> Sexp option)"
  and parse_loop :: "Token list \<Rightarrow> nat \<Rightarrow> Sexp option \<Rightarrow> error + (nat \<times> Sexp option)" where
  "parse tokens cursor =
     (if \<not> cursor < length tokens then Inl TypeError
      else if tvalue (tokens ! cursor) \<noteq> ''(''
      then Inl (ExpectedOpeningParenthesis (tvalue (tokens ! cursor)))
      else parse_loop tokens (cursor + 1) None)"
| "parse_loop tokens cursor siblings =
     (if \<not> cursor < length tokens then Inr (cursor, siblings)
      else if tvalue (tokens ! cursor) = ''(''
      then (case parse tokens cursor of
              Inl e \<Rightarrow> Inl e
            | Inr (newCursor, child) \<Rightarrow>
                (case child of
                   None \<Rightarrow> Inl ExpectedChild
                 | Some c \<Rightarrow>
                     (case append_sexp siblings (Some c) of
                        Inl e \<Rightarrow> Inl e
                      | Inr s \<Rightarrow> parse_loop tokens (newCursor + 1) (Some s))))
      else if tvalue (tokens ! cursor) = '')''
      then Inr (cursor, siblings)
      else (case append_sexp siblings (Some (makeSexpAtom (tokens ! cursor))) of
              Inl e \<Rightarrow> Inl e
            | Inr s \<Rightarrow> parse_loop tokens (cursor + 1) (Some s)))"
  by pat_completeness auto


lemma parse_cursor_mono_dom:
  "parse_parse_loop_dom (Inl (tokens, cursor)) \<Longrightarrow>
     parse tokens cursor = Inr (nc, r) \<Longrightarrow> cursor < nc"
  "parse_parse_loop_dom (Inr (tokens, cursor, siblings)) \<Longrightarrow>
     parse_loop tokens cursor siblings = Inr (nc, r) \<Longrightarrow> cursor \<le> nc"
proof (induct tokens cursor and tokens cursor siblings arbitrary: nc r and nc r
       rule: parse_parse_loop.pinduct)
  case (1 tokens cursor)
  from 1(3) 1(1) have c: "cursor < length tokens" "tvalue (tokens ! cursor) = ''(''"
    and "parse_loop tokens (cursor + 1) None = Inr (nc, r)"
    by (auto simp: parse.psimps split: if_splits)
  with 1(2) have "cursor + 1 \<le> nc" by simp
  then show ?case by simp
next
  case (2 tokens cursor siblings)
  show ?case
  proof (cases "cursor < length tokens")
    case False
    with 2(5) 2(1) show ?thesis by (simp add: parse_loop.psimps)
  next
    case inb: True
    show ?thesis
    proof (cases "tvalue (tokens ! cursor) = ''(''")
      case True
      with inb 2(5) 2(1) obtain c1 x2 ba where
        p: "parse tokens cursor = Inr (c1, Some x2)"
        and a: "append_sexp siblings (Some x2) = Inr ba"
        and l: "parse_loop tokens (c1 + 1) (Some ba) = Inr (nc, r)"
        by (auto simp: parse_loop.psimps split: sum.splits option.splits)
      from 2(2)[OF _ True p] inb have "cursor < c1" by simp
      moreover from 2(3)[OF _ True p _ _ a l] inb have "c1 + 1 \<le> nc" by simp
      ultimately show ?thesis by simp
    next
      case False
      show ?thesis
      proof (cases "tvalue (tokens ! cursor) = '')''")
        case True
        with False inb 2(5) 2(1) show ?thesis by (simp add: parse_loop.psimps)
      next
        case nc: False
        with False inb 2(5) 2(1) obtain b where
          a: "append_sexp siblings (Some (makeSexpAtom (tokens ! cursor))) = Inr b"
          and l: "parse_loop tokens (cursor + 1) (Some b) = Inr (nc, r)"
          by (auto simp: parse_loop.psimps split: sum.splits)
        from 2(4)[OF _ False nc a l] inb have "cursor + 1 \<le> nc" by simp
        then show ?thesis by simp
      qed
    qed
  qed
qed

termination parse
proof (relation "measure (\<lambda>x. case x of Inl (tokens, cursor) \<Rightarrow> 2 * (length tokens - cursor) + 1
                                 | Inr (tokens, cursor, siblings) \<Rightarrow> 2 * (length tokens - cursor) + 2)",
       goal_cases)
  case (4 tokens cursor siblings b x y x2 ba)
  then have "cursor < x" using parse_cursor_mono_dom(1)[of tokens cursor x y] by simp
  with 4 show ?case by simp
qed auto


declare parse.simps [simp del]
declare parse_loop.simps [simp del]

section \<open>Values, Contexts and the store\<close>

text \<open>
  The seven entries of the object literal \<^verbatim>\<open>builtins\<close>. Each entry is an arrow function
  that closes over the variable \<^verbatim>\<open>ctx\<close> of the call of \<^verbatim>\<open>evalLisp\<close> that built the
  table.
\<close>

datatype builtin = LessEq | If | Def | Lambda | Begin | Plus | Minus

text \<open>
  \<^verbatim>\<open>EvalReturnType\<close>. A \<^verbatim>\<open>Map\<close> is an object: a Context is referred to by its address
  in the store. \<open>Builtin b a\<close> is the entry \<open>b\<close> of a builtin table built under the Context at
  address \<open>a\<close>; \<open>Closure params body\<close> is the function returned by \<^verbatim>\<open>lambda\<close>, which
  refers to no Context. \<open>Undefined\<close> is \<^verbatim>\<open>undefined\<close>, which the declared type leaves out
  but which \<^verbatim>\<open>evalLispledCallArgs[i]\<close> yields for a missing argument. \<open>Inherited name\<close>
  is the property \<open>name\<close> that the object literal inherits from \<^verbatim>\<open>Object.prototype\<close>. A
  Number is a double of the source; the model holds the integers of magnitude at most
  \<open>2 ^ 53\<close>, on which the arithmetic of doubles is exact.
\<close>

datatype EvalReturnType =
    Number int
  | Boolean bool
  | Undefined
  | Builtin builtin nat
  | Closure Sexp "Sexp option"
  | Inherited string

text \<open>A \<^verbatim>\<open>Map\<close> keeps its keys in insertion order; \<^verbatim>\<open>set\<close> on a present key keeps its place.\<close>

type_synonym Context = "(string \<times> EvalReturnType) list"

fun ctx_get :: "Context \<Rightarrow> string \<Rightarrow> EvalReturnType" where
  "ctx_get [] k = Undefined"
| "ctx_get ((k', v) # rest) k = (if k' = k then v else ctx_get rest k)"

fun ctx_set :: "Context \<Rightarrow> string \<Rightarrow> EvalReturnType \<Rightarrow> Context" where
  "ctx_set [] k v = [(k, v)]"
| "ctx_set ((k', v') # rest) k v =
     (if k' = k then (k, v) # rest else (k', v') # ctx_set rest k v)"

text \<open>
  The store holds the Contexts; an address is an index. \<^verbatim>\<open>new Map(callCtx)\<close> appends a
  copy. No address of a run lies beyond the store; the functions are total by reading the
  empty Context there.
\<close>

type_synonym store = "Context list"

definition store_get :: "store \<Rightarrow> nat \<Rightarrow> Context" where
  "store_get s a = (if a < length s then s ! a else [])"

definition store_set :: "store \<Rightarrow> nat \<Rightarrow> Context \<Rightarrow> store" where
  "store_set s a c = s[a := c]"

text \<open>JavaScript truthiness: \<^verbatim>\<open>0\<close>, \<^verbatim>\<open>false\<close> and \<^verbatim>\<open>undefined\<close> are falsy.\<close>

fun truthy :: "EvalReturnType \<Rightarrow> bool" where
  "truthy (Number n) = (n \<noteq> 0)"
| "truthy (Boolean b) = b"
| "truthy Undefined = False"
| "truthy (Builtin b a) = True"
| "truthy (Closure params body) = True"
| "truthy (Inherited name) = True"

text \<open>\<^verbatim>\<open>typeof fn == "function"\<close>; the inherited \<^verbatim>\<open>__proto__\<close> is an object.\<close>

fun is_function :: "EvalReturnType \<Rightarrow> bool" where
  "is_function (Builtin b a) = True"
| "is_function (Closure params body) = True"
| "is_function (Inherited name) = (name \<noteq> ''__proto__'')"
| "is_function v = False"

definition exact_limit :: int where
  "exact_limit = 9007199254740992"

definition exact :: "int \<Rightarrow> bool" where
  "exact n \<longleftrightarrow> - exact_limit \<le> n \<and> n \<le> exact_limit"

text \<open>\<^verbatim>\<open>+ast.atom.value\<close> on a string of decimal digits.\<close>

definition digit_value :: "char \<Rightarrow> int" where
  "digit_value c = int (of_char c) - 48"

definition decimal :: "string \<Rightarrow> int" where
  "decimal ds = foldl (\<lambda>acc c. 10 * acc + digit_value c) 0 ds"

definition to_number :: "string \<Rightarrow> error + int" where
  "to_number str =
     (if str \<noteq> [] \<and> list_all is_digit str \<and> exact (decimal str)
      then Inr (decimal str) else Inl OutsideModel)"

text \<open>
  The property names of \<^verbatim>\<open>Object.prototype\<close>: \<^verbatim>\<open>builtins[key]\<close> finds them through
  the prototype chain of the object literal.
\<close>

definition object_prototype_names :: "string list" where
  "object_prototype_names =
     [''constructor'', ''__defineGetter__'', ''__defineSetter__'', ''hasOwnProperty'',
      ''__lookupGetter__'', ''__lookupSetter__'', ''isPrototypeOf'',
      ''propertyIsEnumerable'', ''toString'', ''valueOf'', ''__proto__'',
      ''toLocaleString'']"

definition builtin_names :: "(string \<times> builtin) list" where
  "builtin_names =
     [(''<='', LessEq), (''if'', If), (''def'', Def), (''lambda'', Lambda),
      (''begin'', Begin), (''+'', Plus), (''-'', Minus)]"

text \<open>\<^verbatim>\<open>builtins[key]\<close>, for the table built under the Context at \<open>ctx\<close>; \<open>None\<close> is \<^verbatim>\<open>undefined\<close>.\<close>

definition builtins :: "nat \<Rightarrow> string \<Rightarrow> EvalReturnType option" where
  "builtins ctx key =
     (case map_of builtin_names key of
        Some b \<Rightarrow> Some (Builtin b ctx)
      | None \<Rightarrow> if key \<in> set object_prototype_names then Some (Inherited key) else None)"

text \<open>
  \<^verbatim>\<open>evalLispledArgs[0] <= evalLispledArgs[1]\<close>: the operands are converted to numbers,
  \<^verbatim>\<open>true\<close> to 1, \<^verbatim>\<open>false\<close> to 0 and \<^verbatim>\<open>undefined\<close> to NaN, with which every
  comparison is false. A function object is converted to the text of its source; the model
  does not cover it.
\<close>

fun js_to_number :: "EvalReturnType \<Rightarrow> error + int option" where
  "js_to_number (Number n) = Inr (Some n)"
| "js_to_number (Boolean b) = Inr (Some (if b then 1 else 0))"
| "js_to_number Undefined = Inr None"
| "js_to_number v = Inl OutsideModel"

definition js_less_eq :: "EvalReturnType \<Rightarrow> EvalReturnType \<Rightarrow> error + bool" where
  "js_less_eq x y =
     (case js_to_number x of
        Inl e \<Rightarrow> Inl e
      | Inr a \<Rightarrow>
          (case js_to_number y of
             Inl e \<Rightarrow> Inl e
           | Inr b \<Rightarrow>
               (case (a, b) of
                  (Some m, Some n) \<Rightarrow> Inr (m \<le> n)
                | _ \<Rightarrow> Inr False)))"

text \<open>\<^verbatim>\<open>xs[i]\<close> on an array: \<^verbatim>\<open>undefined\<close> beyond its length.\<close>

definition array_get :: "EvalReturnType list \<Rightarrow> nat \<Rightarrow> EvalReturnType" where
  "array_get xs i = (if i < length xs then xs ! i else Undefined)"

text \<open>The loop of \<^verbatim>\<open>+\<close> over the evaluated arguments.\<close>

fun plus_loop :: "int \<Rightarrow> EvalReturnType list \<Rightarrow> error + int" where
  "plus_loop res [] = Inr res"
| "plus_loop res (Number n # args) =
     (if exact (res + n) then plus_loop (res + n) args else Inl OutsideModel)"
| "plus_loop res (arg # args) = Inl PlusExpectsNumbers"

text \<open>The loop of \<^verbatim>\<open>-\<close> over \<^verbatim>\<open>evalLispledArgs.slice(1)\<close>.\<close>

fun minus_loop :: "int \<Rightarrow> EvalReturnType list \<Rightarrow> error + int" where
  "minus_loop res [] = Inr res"
| "minus_loop res (Number n # args) =
     (if exact (res - n) then minus_loop (res - n) args else Inl OutsideModel)"
| "minus_loop res (arg # args) = Inl MinusExpectsNumbers"

definition minus :: "EvalReturnType list \<Rightarrow> error + int" where
  "minus evalLispledArgs =
     (case array_get evalLispledArgs 0 of
        Number n \<Rightarrow> minus_loop n (drop 1 evalLispledArgs)
      | _ \<Rightarrow> Inl MinusExpectsNumbers)"

text \<open>The parameter loop of a lambda call, on the copy \<^verbatim>\<open>childCallCtx\<close>.\<close>

fun bind_params ::
  "Sexp option \<Rightarrow> nat \<Rightarrow> EvalReturnType list \<Rightarrow> Context \<Rightarrow> error + Context" where
  "bind_params None i evalLispledCallArgs childCallCtx = Inr childCallCtx"
| "bind_params (Some (Pair (Atom t) rest)) i evalLispledCallArgs childCallCtx =
     bind_params rest (i + 1) evalLispledCallArgs
       (ctx_set childCallCtx (tvalue t) (array_get evalLispledCallArgs i))"
| "bind_params (Some iter) i evalLispledCallArgs childCallCtx = Inl ExpectedArgumentList"

section \<open>Evaluator\<close>

text \<open>
  Evaluation need not end (a lambda can call itself for ever), so the evaluator takes fuel:
  every call of one of the four functions below passes one unit less, and \<open>None\<close> is the
  answer of a run that needs more. \<open>Some (Inl e)\<close> is a run that throws \<open>e\<close>, after which the
  program ends; \<open>Some (Inr (v, s))\<close> is a run that returns \<open>v\<close> and leaves the store \<open>s\<close>.

  \<^item> \<open>evalLisp n ast ctx s\<close> is \<^verbatim>\<open>evalLisp(ast, ctx)\<close>.
  \<^item> \<open>evalLispArgs n args ctx s\<close> is the loop of \<^verbatim>\<open>evalLispArgs\<close> from the node
    \<^verbatim>\<open>currentArgNode = args\<close> on, returning the values pushed from there.
  \<^item> \<open>call n fn a d callCtx s\<close> is \<^verbatim>\<open>fn(args, ctx)\<close> for \<^verbatim>\<open>args\<close> the Pair of \<open>a\<close> and
    \<open>d\<close>: the bodies of the seven builtins, which use the Context they closed over, and
    the function returned by \<^verbatim>\<open>lambda\<close>, which uses the Context of the call.
  \<^item> \<open>begin_loop n current res ctx s\<close> is the loop of \<^verbatim>\<open>begin\<close> after its first round
    (the argument list of a call is a Pair, so the first round always runs and \<^verbatim>\<open>res\<close>
    is never \<^verbatim>\<open>null\<close> at the end).
\<close>

type_synonym 'a result = "(error + 'a) option"

function evalLisp :: "nat \<Rightarrow> Sexp \<Rightarrow> nat \<Rightarrow> store \<Rightarrow> (EvalReturnType \<times> store) result"
  and evalLispArgs ::
    "nat \<Rightarrow> Sexp option \<Rightarrow> nat \<Rightarrow> store \<Rightarrow> (EvalReturnType list \<times> store) result"
  and call ::
    "nat \<Rightarrow> EvalReturnType \<Rightarrow> Sexp \<Rightarrow> Sexp option \<Rightarrow> nat \<Rightarrow> store \<Rightarrow>
       (EvalReturnType \<times> store) result"
  and begin_loop ::
    "nat \<Rightarrow> Sexp option \<Rightarrow> EvalReturnType \<Rightarrow> nat \<Rightarrow> store \<Rightarrow>
       (EvalReturnType \<times> store) result"
where
  "evalLisp 0 ast ctx s = None"
| "evalLisp (Suc n) ast ctx s =
     (case ast of
        Pair a d \<Rightarrow>
          (case evalLisp n a ctx s of
             None \<Rightarrow> None
           | Some (Inl e) \<Rightarrow> Some (Inl e)
           | Some (Inr (fn, s1)) \<Rightarrow>
               if \<not> truthy fn then Some (Inl (UnknownFunction (pretty a)))
               else if \<not> is_function fn then Some (Inl (NotAFunction (pretty a)))
               else
                 (case d of
                    None \<Rightarrow> Some (Inl (NotALinkedList ''null''))
                  | Some (Atom t) \<Rightarrow> Some (Inl (NotALinkedList (pretty (Atom t))))
                  | Some (Pair a1 d1) \<Rightarrow> call n fn a1 d1 ctx s1))
      | Atom t \<Rightarrow>
          if tkind t = Integer
          then (case to_number (tvalue t) of
                  Inl e \<Rightarrow> Some (Inl e)
                | Inr k \<Rightarrow> Some (Inr (Number k, s)))
          else if truthy (ctx_get (store_get s ctx) (tvalue t))
          then Some (Inr (ctx_get (store_get s ctx) (tvalue t), s))
          else
            (case builtins ctx (tvalue t) of
               None \<Rightarrow> Some (Inl (UndefinedValue (tvalue t)))
             | Some f \<Rightarrow> Some (Inr (f, s))))"
| "evalLispArgs 0 currentArgNode ctx s = None"
| "evalLispArgs (Suc n) currentArgNode ctx s =
     (case currentArgNode of
        None \<Rightarrow> Some (Inr ([], s))
      | Some (Atom t) \<Rightarrow> Some (Inl ExpectedLinkedList)
      | Some (Pair a d) \<Rightarrow>
          (case evalLisp n a ctx s of
             None \<Rightarrow> None
           | Some (Inl e) \<Rightarrow> Some (Inl e)
           | Some (Inr (v, s1)) \<Rightarrow>
               (case evalLispArgs n d ctx s1 of
                  None \<Rightarrow> None
                | Some (Inl e) \<Rightarrow> Some (Inl e)
                | Some (Inr (vs, s2)) \<Rightarrow> Some (Inr (v # vs, s2)))))"
| "call 0 fn a d callCtx s = None"
| "call (Suc n) fn a d callCtx s =
     (case fn of
        Builtin LessEq ctx \<Rightarrow>
          (case evalLispArgs n (Some (Pair a d)) ctx s of
             None \<Rightarrow> None
           | Some (Inl e) \<Rightarrow> Some (Inl e)
           | Some (Inr (evalLispledArgs, s1)) \<Rightarrow>
               (case js_less_eq (array_get evalLispledArgs 0) (array_get evalLispledArgs 1) of
                  Inl e \<Rightarrow> Some (Inl e)
                | Inr b \<Rightarrow> Some (Inr (Boolean b, s1))))
      | Builtin If ctx \<Rightarrow>
          (case d of
             Some (Pair true_branch d1) \<Rightarrow>
               (case d1 of
                  Some (Pair false_branch d2) \<Rightarrow>
                    (case evalLisp n a ctx s of
                       None \<Rightarrow> None
                     | Some (Inl e) \<Rightarrow> Some (Inl e)
                     | Some (Inr (test, s1)) \<Rightarrow>
                         if truthy test then evalLisp n true_branch ctx s1
                         else evalLisp n false_branch ctx s1)
                | _ \<Rightarrow> Some (Inl ExpectedFalseBranch))
           | _ \<Rightarrow> Some (Inl ExpectedTrueBranch))
      | Builtin Def ctx \<Rightarrow>
          (case a of
             Atom name \<Rightarrow>
               (case d of
                  Some (Pair body d1) \<Rightarrow>
                    (case evalLisp n body ctx s of
                       None \<Rightarrow> None
                     | Some (Inl e) \<Rightarrow> Some (Inl e)
                     | Some (Inr (evalLispledArg, s1)) \<Rightarrow>
                         Some (Inr (evalLispledArg,
                           store_set s1 ctx
                             (ctx_set (store_get s1 ctx) (tvalue name) evalLispledArg))))
                | _ \<Rightarrow> Some (Inl ExpectedFunctionBody))
           | _ \<Rightarrow> Some (Inl ExpectedFunctionName))
      | Builtin Lambda ctx \<Rightarrow> Some (Inr (Closure a d, s))
      | Builtin Begin ctx \<Rightarrow>
          (case evalLisp n a ctx s of
             None \<Rightarrow> None
           | Some (Inl e) \<Rightarrow> Some (Inl e)
           | Some (Inr (res, s1)) \<Rightarrow> begin_loop n d res ctx s1)
      | Builtin Plus ctx \<Rightarrow>
          (case evalLispArgs n (Some (Pair a d)) ctx s of
             None \<Rightarrow> None
           | Some (Inl e) \<Rightarrow> Some (Inl e)
           | Some (Inr (evalLispledArgs, s1)) \<Rightarrow>
               (case plus_loop 0 evalLispledArgs of
                  Inl e \<Rightarrow> Some (Inl e)
                | Inr res \<Rightarrow> Some (Inr (Number res, s1))))
      | Builtin Minus ctx \<Rightarrow>
          (case evalLispArgs n (Some (Pair a d)) ctx s of
             None \<Rightarrow> None
           | Some (Inl e) \<Rightarrow> Some (Inl e)
           | Some (Inr (evalLispledArgs, s1)) \<Rightarrow>
               (case minus evalLispledArgs of
                  Inl e \<Rightarrow> Some (Inl e)
                | Inr res \<Rightarrow> Some (Inr (Number res, s1))))
      | Closure params body \<Rightarrow>
          (case evalLispArgs n (Some (Pair a d)) callCtx s of
             None \<Rightarrow> None
           | Some (Inl e) \<Rightarrow> Some (Inl e)
           | Some (Inr (evalLispledCallArgs, s1)) \<Rightarrow>
               (case bind_params (Some params) 0 evalLispledCallArgs (store_get s1 callCtx) of
                  Inl e \<Rightarrow> Some (Inl e)
                | Inr childCallCtx \<Rightarrow>
                    (case append_sexp
                            (Some (makeSexpAtom \<lparr>tvalue = ''begin'', tkind = Identifier\<rparr>)) body of
                       Inl e \<Rightarrow> Some (Inl e)
                     | Inr begin \<Rightarrow> evalLisp n begin (length s1) (s1 @ [childCallCtx]))))
      | Inherited name \<Rightarrow> Some (Inl OutsideModel)
      | _ \<Rightarrow> Some (Inl TypeError))"
| "begin_loop 0 current res ctx s = None"
| "begin_loop (Suc n) current res ctx s =
     (case current of
        None \<Rightarrow> Some (Inr (res, s))
      | Some (Atom t) \<Rightarrow> Some (Inl ExpectedLinkedList)
      | Some (Pair a d) \<Rightarrow>
          (case evalLisp n a ctx s of
             None \<Rightarrow> None
           | Some (Inl e) \<Rightarrow> Some (Inl e)
           | Some (Inr (res1, s1)) \<Rightarrow> begin_loop n d res1 ctx s1))"

  by pat_completeness auto
termination
  by (relation "measure (\<lambda>x. case x of
      Inl (Inl (n, _)) \<Rightarrow> n | Inl (Inr (n, _)) \<Rightarrow> n | Inr (Inl (n, _)) \<Rightarrow> n | Inr (Inr (n, _)) \<Rightarrow> n)") auto

declare evalLisp.simps [simp del]
declare evalLispArgs.simps [simp del]
declare call.simps [simp del]
declare begin_loop.simps [simp del]

section \<open>The program\<close>

text \<open>
  The loop of \<^verbatim>\<open>main\<close>: while the cursor is not on the last token, the next top-level
  form is parsed from \<^verbatim>\<open>cursor + 1\<close> and appended.
\<close>

lemma parse_cursor_mono:
  "parse tokens cursor = Inr (nc, r) \<Longrightarrow> cursor < nc"
  "parse_loop tokens cursor siblings = Inr (nc, r) \<Longrightarrow> cursor \<le> nc"
proof (induct tokens cursor and tokens cursor siblings arbitrary: nc r and nc r
       rule: parse_parse_loop.induct)
  case (1 tokens cursor)
  from 1(2) have c: "cursor < length tokens" "tvalue (tokens ! cursor) = ''(''"
    and "parse_loop tokens (cursor + 1) None = Inr (nc, r)"
    by (auto simp: parse.simps [of tokens cursor] split: if_splits)
  with 1(1) have "cursor + 1 \<le> nc" by simp
  then show ?case by simp
next
  case (2 tokens cursor siblings)
  show ?case
  proof (cases "cursor < length tokens")
    case False
    with 2(4) show ?thesis by (simp add: parse_loop.simps [of tokens cursor siblings])
  next
    case inb: True
    show ?thesis
    proof (cases "tvalue (tokens ! cursor) = ''(''")
      case True
      with inb 2(4) obtain c1 x2 ba where
        p: "parse tokens cursor = Inr (c1, Some x2)"
        and a: "append_sexp siblings (Some x2) = Inr ba"
        and l: "parse_loop tokens (c1 + 1) (Some ba) = Inr (nc, r)"
        by (auto simp: parse_loop.simps [of tokens cursor siblings] split: sum.splits option.splits)
      from 2(1)[OF _ True p] inb have "cursor < c1" by simp
      moreover from 2(2)[OF _ True p _ _ a l] inb have "c1 + 1 \<le> nc" by simp
      ultimately show ?thesis by simp
    next
      case False
      show ?thesis
      proof (cases "tvalue (tokens ! cursor) = '')''")
        case True
        with False inb 2(4) show ?thesis by (simp add: parse_loop.simps [of tokens cursor siblings])
      next
        case nc: False
        with False inb 2(4) obtain b where
          a: "append_sexp siblings (Some (makeSexpAtom (tokens ! cursor))) = Inr b"
          and l: "parse_loop tokens (cursor + 1) (Some b) = Inr (nc, r)"
          by (auto simp: parse_loop.simps [of tokens cursor siblings] split: sum.splits)
        from 2(3)[OF _ False nc a l] inb have "cursor + 1 \<le> nc" by simp
        then show ?thesis by simp
      qed
    qed
  qed
qed

lemma parse_in_range: "parse tokens cursor = Inr (nc, r) \<Longrightarrow> cursor < length tokens"
  by (subst (asm) parse.simps) (simp split: if_splits)

function main_loop :: "Token list \<Rightarrow> nat \<Rightarrow> Sexp \<Rightarrow> error + Sexp" where
  "main_loop tokens cursor begin =
     (if int cursor \<noteq> int (length tokens) - 1
      then (case parse tokens (cursor + 1) of
              Inl e \<Rightarrow> Inl e
            | Inr (cursor1, child) \<Rightarrow>
                (case append_sexp (Some begin) child of
                   Inl e \<Rightarrow> Inl e
                 | Inr begin1 \<Rightarrow> main_loop tokens cursor1 begin1))
      else Inr begin)"
  by pat_completeness auto
termination
proof (relation "measure (\<lambda>(tokens, cursor, begin). length tokens - cursor)", goal_cases)
  case (2 tokens cursor begin0 b cursor1 child begin1)
  then have "parse tokens (cursor + 1) = Inr (cursor1, child)" by simp
  then have "cursor + 1 < cursor1" "cursor + 1 < length tokens"
    by (rule parse_cursor_mono(1), rule parse_in_range)
  then show ?case by simp
qed simp

declare main_loop.simps [simp del]

text \<open>
  \<^verbatim>\<open>main\<close>, for the program text \<^verbatim>\<open>process.argv[2]\<close>. The root Context \<^verbatim>\<open>new Map\<close> is
  the only Context of the initial store. The result is the value given to
  \<^verbatim>\<open>console.log\<close>.
\<close>

definition main :: "nat \<Rightarrow> string \<Rightarrow> EvalReturnType result" where
  "main fuel program =
     (case lex program of
        Inl e \<Rightarrow> Some (Inl e)
      | Inr tokens \<Rightarrow>
          (case append_sexp (Some (makeSexpAtom \<lparr>tvalue = ''begin'', tkind = Identifier\<rparr>)) None of
             Inl e \<Rightarrow> Some (Inl e)
           | Inr begin0 \<Rightarrow>
               (case parse tokens 0 of
                  Inl e \<Rightarrow> Some (Inl e)
                | Inr (cursor, child) \<Rightarrow>
                    (case append_sexp (Some begin0) child of
                       Inl e \<Rightarrow> Some (Inl e)
                     | Inr begin1 \<Rightarrow>
                         (case main_loop tokens cursor begin1 of
                            Inl e \<Rightarrow> Some (Inl e)
                          | Inr begin \<Rightarrow>
                              (case evalLisp fuel begin 0 [[]] of
                                 None \<Rightarrow> None
                               | Some (Inl e) \<Rightarrow> Some (Inl e)
                               | Some (Inr (result, s)) \<Rightarrow> Some (Inr result)))))))"

section \<open>Notions used in the statements\<close>

text \<open>Atoms as the lexer and the parser make them, and the forms of the builtins.\<close>

definition int_atom :: "string \<Rightarrow> Sexp" where
  "int_atom ds = Atom \<lparr>tvalue = ds, tkind = Integer\<rparr>"

definition name_atom :: "string \<Rightarrow> Sexp" where
  "name_atom x = Atom \<lparr>tvalue = x, tkind = Identifier\<rparr>"

definition plus_token :: Token where
  "plus_token = \<lparr>tvalue = ''+'', tkind = Identifier\<rparr>"

definition if_token :: Token where
  "if_token = \<lparr>tvalue = ''if'', tkind = Identifier\<rparr>"

text \<open>The form \<^verbatim>\<open>(if test . rest)\<close>.\<close>

definition if_form :: "Sexp \<Rightarrow> Sexp option \<Rightarrow> Sexp" where
  "if_form test rest = Pair (Atom if_token) (Some (Pair test rest))"

text \<open>A proper list of s-expressions, as the chain of Pairs that \<^verbatim>\<open>append\<close> builds.\<close>

fun list_sexp :: "Sexp list \<Rightarrow> Sexp option" where
  "list_sexp [] = None"
| "list_sexp (x # xs) = Some (Pair x (list_sexp xs))"

text \<open>
  \<open>captures a v\<close>: the value \<open>v\<close> is a builtin that closed over the Context at address
  \<open>a\<close>. \<open>store_free a s\<close>: no Context of the store \<open>s\<close> holds such a value. \<open>frame a s r\<close>:
  a run with result \<open>r\<close> from the store \<open>s\<close>, when it returns, leaves the Context at \<open>a\<close>
  as it was, returns no builtin that closed over it and stores none.
\<close>

fun captures :: "nat \<Rightarrow> EvalReturnType \<Rightarrow> bool" where
  "captures a (Builtin b c) = (c = a)"
| "captures a v = False"

definition ctx_free :: "nat \<Rightarrow> Context \<Rightarrow> bool" where
  "ctx_free a c = list_all (\<lambda>kv. \<not> captures a (snd kv)) c"

definition store_free :: "nat \<Rightarrow> store \<Rightarrow> bool" where
  "store_free a s = list_all (ctx_free a) s"

definition frame :: "nat \<Rightarrow> store \<Rightarrow> (EvalReturnType \<times> store) result \<Rightarrow> bool" where
  "frame a s r =
     (case r of
        Some (Inr (v, s')) \<Rightarrow>
          store_free a s' \<and> \<not> captures a v \<and> store_get s' a = store_get s a \<and> length s \<le> length s'
      | _ \<Rightarrow> True)"

definition frames :: "nat \<Rightarrow> store \<Rightarrow> (EvalReturnType list \<times> store) result \<Rightarrow> bool" where
  "frames a s r =
     (case r of
        Some (Inr (vs, s')) \<Rightarrow>
          store_free a s' \<and> list_all (\<lambda>v. \<not> captures a v) vs \<and>
          store_get s' a = store_get s a \<and> length s \<le> length s'
      | _ \<Rightarrow> True)"

text \<open>The store of a returning run is no shorter than before.\<close>

definition grows :: "store \<Rightarrow> ('a \<times> store) result \<Rightarrow> bool" where
  "grows s r = (case r of Some (Inr (v, s')) \<Rightarrow> length s \<le> length s' | _ \<Rightarrow> True)"

text \<open>Classes of characters of the lexer.\<close>

definition is_ident_char :: "char \<Rightarrow> bool" where
  "is_ident_char c \<longleftrightarrow> is_letter c \<or> is_operator c \<or> is_digit c"

definition is_paren :: "char \<Rightarrow> bool" where
  "is_paren c \<longleftrightarrow> c = CHR '')'' \<or> c = CHR ''(''"

text \<open>A character that starts no token and is no whitespace.\<close>

definition is_unknown :: "char \<Rightarrow> bool" where
  "is_unknown c \<longleftrightarrow> \<not> is_whitespace c \<and> \<not> is_paren c \<and> \<not> is_ident_char c"

definition open_paren :: Token where
  "open_paren = \<lparr>tvalue = ''('', tkind = Syntax\<rparr>"

text \<open>
  \<open>no_empty_form tokens from\<close>: from the index \<open>from\<close> on, every opening parenthesis is
  followed by a token that is not a closing parenthesis.
\<close>

definition no_empty_form :: "Token list \<Rightarrow> nat \<Rightarrow> bool" where
  "no_empty_form tokens from \<longleftrightarrow>
     (\<forall>i \<in> {from ..< length tokens}. tvalue (tokens ! i) = ''('' \<longrightarrow>
        i + 1 < length tokens \<and> tvalue (tokens ! (i + 1)) \<noteq> '')'')"

text \<open>
  The lexemes of the language: an integer is one or more digits; an identifier is a letter
  or an operator character followed by letters, operator characters and digits; a syntax
  lexeme is one parenthesis. \<open>token_of\<close> is the token a lexeme stands for. A separator
  is a non-empty run of whitespace. \<open>join l rest\<close> is the text of the lexeme \<open>l\<close>
  followed by the lexemes of \<open>rest\<close>, each after its separator.
\<close>

definition valid_integer :: "string \<Rightarrow> bool" where
  "valid_integer l \<longleftrightarrow> l \<noteq> [] \<and> list_all is_digit l"

definition valid_identifier :: "string \<Rightarrow> bool" where
  "valid_identifier l \<longleftrightarrow>
     l \<noteq> [] \<and> (is_letter (hd l) \<or> is_operator (hd l)) \<and> list_all is_ident_char (tl l)"

definition valid_syntax :: "string \<Rightarrow> bool" where
  "valid_syntax l \<longleftrightarrow> l = ''('' \<or> l = '')''"

definition valid_lexeme :: "string \<Rightarrow> bool" where
  "valid_lexeme l \<longleftrightarrow> valid_integer l \<or> valid_identifier l \<or> valid_syntax l"

definition token_of :: "string \<Rightarrow> Token" where
  "token_of l =
     \<lparr>tvalue = l,
      tkind = (if valid_syntax l then Syntax else if valid_integer l then Integer else Identifier)\<rparr>"

definition separator :: "string \<Rightarrow> bool" where
  "separator w \<longleftrightarrow> w \<noteq> [] \<and> list_all is_whitespace w"

fun join :: "string \<Rightarrow> (string \<times> string) list \<Rightarrow> string" where
  "join l [] = l"
| "join l ((w, l') # rest) = l @ w @ join l' rest"

text \<open>The text after a lexeme: nothing, or something that starts with whitespace.\<close>

definition ends_lexeme :: "string \<Rightarrow> bool" where
  "ends_lexeme rest \<longleftrightarrow> rest = [] \<or> is_whitespace (hd rest)"

section \<open>Properties of the lexer and the parser\<close>

lemma lex_loop_whitespace:
  "\<forall>j. i \<le> j \<and> j < length program \<longrightarrow> is_whitespace (program ! j) \<Longrightarrow>
   lex_loop program i tokens = Inr tokens"
proof (induction program i tokens rule: lex_loop.induct)
  case (1 program i tokens)
  show ?case
  proof (cases "i < length program")
    case False
    then show ?thesis by (subst lex_loop.simps) simp
  next
    case True
    with 1(5) have w: "is_whitespace (program ! i)" by simp
    have "lex_loop program (i + 1) tokens = Inr tokens"
      using 1(1) [OF _ refl] True w 1(5) by (simp add: is_whitespace_def)
    then show ?thesis
      using True w by (subst lex_loop.simps) (simp add: is_whitespace_def Let_def)
  qed
qed

lemma main_no_tokens: "lex program = Inr [] \<Longrightarrow> main fuel program = Some (Inl TypeError)"
  by (simp add: main_def parse.simps [of "[]" 0] makeSexpAtom_def makeSexpPair_def)

text \<open>
  Claim C10. \<^verbatim>\<open>parse(tokens, cursor)\<close> with the cursor at or past the end of the tokens fails
  (reading the token that is not there raises \<open>TypeError\<close>) instead of returning an absent
  result. So a program that lexes to no token at all, such as an empty program or one of
  whitespace only, makes \<^verbatim>\<open>main\<close> fail before any evaluation: the failure is there
  whatever the fuel, also with none.
\<close>

theorem parse_past_end_fails:
  "(length tokens \<le> cursor \<longrightarrow> parse tokens cursor = Inl TypeError) \<and>
   (lex program = Inr [] \<longrightarrow> main fuel program = Some (Inl TypeError)) \<and>
   (list_all is_whitespace program' \<longrightarrow> main fuel program' = Some (Inl TypeError))"
proof (intro conjI impI)
  assume "length tokens \<le> cursor"
  then show "parse tokens cursor = Inl TypeError"
    by (subst parse.simps) simp
next
  assume "lex program = Inr []"
  then show "main fuel program = Some (Inl TypeError)" by (rule main_no_tokens)
next
  assume "list_all is_whitespace program'"
  then have "lex program' = Inr []"
    unfolding lex_def by (intro lex_loop_whitespace) (simp add: list_all_length)
  then show "main fuel program' = Some (Inl TypeError)" by (rule main_no_tokens)
qed

theorem parse_past_end_fails_witness:
  "parse [] 0 = Inl TypeError \<and> main 0 [] = Some (Inl TypeError) \<and>
   main 0 [CHR '' '', CHR 0x0A, CHR 0x09] = Some (Inl TypeError)"
proof -
  have l: "lex [] = Inr []" by code_simp
  have w: "list_all is_whitespace [CHR '' '', CHR 0x0A, CHR 0x09]"
    by (simp add: is_whitespace_def)
  show ?thesis
    using parse_past_end_fails [of "[]" 0 "[]" 0 "[CHR '' '', CHR 0x0A, CHR 0x09]"] l w
    by simp
qed


section \<open>Properties of the evaluator\<close>

lemma evalLisp_Atom:
  "evalLisp (Suc n) (Atom t) ctx s =
     (if tkind t = Integer
      then (case to_number (tvalue t) of
              Inl e \<Rightarrow> Some (Inl e)
            | Inr k \<Rightarrow> Some (Inr (Number k, s)))
      else if truthy (ctx_get (store_get s ctx) (tvalue t))
      then Some (Inr (ctx_get (store_get s ctx) (tvalue t), s))
      else
        (case builtins ctx (tvalue t) of
           None \<Rightarrow> Some (Inl (UndefinedValue (tvalue t)))
         | Some f \<Rightarrow> Some (Inr (f, s))))"
  by (simp add: evalLisp.simps)

lemma evalLisp_Pair:
  "evalLisp (Suc n) (Pair a d) ctx s =
     (case evalLisp n a ctx s of
        None \<Rightarrow> None
      | Some (Inl e) \<Rightarrow> Some (Inl e)
      | Some (Inr (fn, s1)) \<Rightarrow>
          if \<not> truthy fn then Some (Inl (UnknownFunction (pretty a)))
          else if \<not> is_function fn then Some (Inl (NotAFunction (pretty a)))
          else
            (case d of
               None \<Rightarrow> Some (Inl (NotALinkedList ''null''))
             | Some (Atom t) \<Rightarrow> Some (Inl (NotALinkedList (pretty (Atom t))))
             | Some (Pair a1 d1) \<Rightarrow> call n fn a1 d1 ctx s1))"
  by (simp add: evalLisp.simps)

lemma builtins_simps [simp]:
  "builtins ctx ''<='' = Some (Builtin LessEq ctx)"
  "builtins ctx ''if'' = Some (Builtin If ctx)"
  "builtins ctx ''def'' = Some (Builtin Def ctx)"
  "builtins ctx ''lambda'' = Some (Builtin Lambda ctx)"
  "builtins ctx ''begin'' = Some (Builtin Begin ctx)"
  "builtins ctx ''+'' = Some (Builtin Plus ctx)"
  "builtins ctx ''-'' = Some (Builtin Minus ctx)"
  by (simp_all add: builtins_def builtin_names_def)

lemma call_LessEq:
  "call (Suc n) (Builtin LessEq ctx) a d callCtx s =
     (case evalLispArgs n (Some (Pair a d)) ctx s of
        None \<Rightarrow> None
      | Some (Inl e) \<Rightarrow> Some (Inl e)
      | Some (Inr (evalLispledArgs, s1)) \<Rightarrow>
          (case js_less_eq (array_get evalLispledArgs 0) (array_get evalLispledArgs 1) of
             Inl e \<Rightarrow> Some (Inl e)
           | Inr b \<Rightarrow> Some (Inr (Boolean b, s1))))"
  by (simp add: call.simps)

lemma call_If:
  "call (Suc n) (Builtin If ctx) a d callCtx s =
     (case d of
        Some (Pair true_branch d1) \<Rightarrow>
          (case d1 of
             Some (Pair false_branch d2) \<Rightarrow>
               (case evalLisp n a ctx s of
                  None \<Rightarrow> None
                | Some (Inl e) \<Rightarrow> Some (Inl e)
                | Some (Inr (test, s1)) \<Rightarrow>
                    if truthy test then evalLisp n true_branch ctx s1
                    else evalLisp n false_branch ctx s1)
           | _ \<Rightarrow> Some (Inl ExpectedFalseBranch))
      | _ \<Rightarrow> Some (Inl ExpectedTrueBranch))"
  by (simp add: call.simps)

lemma call_Def:
  "call (Suc n) (Builtin Def ctx) a d callCtx s =
     (case a of
        Atom name \<Rightarrow>
          (case d of
             Some (Pair body d1) \<Rightarrow>
               (case evalLisp n body ctx s of
                  None \<Rightarrow> None
                | Some (Inl e) \<Rightarrow> Some (Inl e)
                | Some (Inr (evalLispledArg, s1)) \<Rightarrow>
                    Some (Inr (evalLispledArg,
                      store_set s1 ctx (ctx_set (store_get s1 ctx) (tvalue name) evalLispledArg))))
           | _ \<Rightarrow> Some (Inl ExpectedFunctionBody))
      | _ \<Rightarrow> Some (Inl ExpectedFunctionName))"
  by (simp add: call.simps)

lemma call_Lambda:
  "call (Suc n) (Builtin Lambda ctx) a d callCtx s = Some (Inr (Closure a d, s))"
  by (simp add: call.simps)

lemma call_Begin:
  "call (Suc n) (Builtin Begin ctx) a d callCtx s =
     (case evalLisp n a ctx s of
        None \<Rightarrow> None
      | Some (Inl e) \<Rightarrow> Some (Inl e)
      | Some (Inr (res, s1)) \<Rightarrow> begin_loop n d res ctx s1)"
  by (simp add: call.simps)

lemma call_Plus:
  "call (Suc n) (Builtin Plus ctx) a d callCtx s =
     (case evalLispArgs n (Some (Pair a d)) ctx s of
        None \<Rightarrow> None
      | Some (Inl e) \<Rightarrow> Some (Inl e)
      | Some (Inr (evalLispledArgs, s1)) \<Rightarrow>
          (case plus_loop 0 evalLispledArgs of
             Inl e \<Rightarrow> Some (Inl e)
           | Inr res \<Rightarrow> Some (Inr (Number res, s1))))"
  by (simp add: call.simps)

lemma call_Minus:
  "call (Suc n) (Builtin Minus ctx) a d callCtx s =
     (case evalLispArgs n (Some (Pair a d)) ctx s of
        None \<Rightarrow> None
      | Some (Inl e) \<Rightarrow> Some (Inl e)
      | Some (Inr (evalLispledArgs, s1)) \<Rightarrow>
          (case minus evalLispledArgs of
             Inl e \<Rightarrow> Some (Inl e)
           | Inr res \<Rightarrow> Some (Inr (Number res, s1))))"
  by (simp add: call.simps)

lemma call_Closure:
  "call (Suc n) (Closure params body) a d callCtx s =
     (case evalLispArgs n (Some (Pair a d)) callCtx s of
        None \<Rightarrow> None
      | Some (Inl e) \<Rightarrow> Some (Inl e)
      | Some (Inr (evalLispledCallArgs, s1)) \<Rightarrow>
          (case bind_params (Some params) 0 evalLispledCallArgs (store_get s1 callCtx) of
             Inl e \<Rightarrow> Some (Inl e)
           | Inr childCallCtx \<Rightarrow>
               evalLisp n (Pair (name_atom ''begin'') body) (length s1) (s1 @ [childCallCtx])))"
  by (simp add: call.simps makeSexpAtom_def makeSexpPair_def name_atom_def
        split: option.splits sum.splits)

lemma call_other:
  "call (Suc n) (Inherited name) a d callCtx s = Some (Inl OutsideModel)"
  "call (Suc n) (Number k) a d callCtx s = Some (Inl TypeError)"
  "call (Suc n) (Boolean b) a d callCtx s = Some (Inl TypeError)"
  "call (Suc n) Undefined a d callCtx s = Some (Inl TypeError)"
  by (simp_all add: call.simps)

lemma plus_loop_sum:
  "\<forall>i \<le> length ks. exact (res + sum_list (take i ks)) \<Longrightarrow>
   plus_loop res (map Number ks) = Inr (res + sum_list ks)"
proof (induction ks arbitrary: res)
  case Nil
  then show ?case by simp
next
  case (Cons k ks)
  have e: "exact (res + k)" using Cons.prems [rule_format, of 1] by simp
  have "\<forall>i \<le> length ks. exact (res + k + sum_list (take i ks))"
  proof (intro allI impI)
    fix i assume "i \<le> length ks"
    then show "exact (res + k + sum_list (take i ks))"
      using Cons.prems [rule_format, of "Suc i"] by (simp add: add.assoc)
  qed
  then have "plus_loop (res + k) (map Number ks) = Inr (res + k + sum_list ks)"
    by (rule Cons.IH)
  with e show ?case by (simp add: add.assoc)
qed

lemma head_plus:
  "\<not> truthy (ctx_get (store_get s ctx) ''+'') \<Longrightarrow>
   evalLisp (Suc n) (Atom plus_token) ctx s = Some (Inr (Builtin Plus ctx, s))"
  by (simp add: evalLisp_Atom plus_token_def)

text \<open>
  Claim C1, as amended. The builtin \<^verbatim>\<open>+\<close> evaluates every argument and returns the sum of
  all of them: when the name \<^verbatim>\<open>+\<close> is not rebound and the arguments of a call with at
  least one argument evaluate to the Numbers \<open>ks\<close>, the call evaluates to their sum, in the
  store the arguments leave (the running sums staying in the range where the arithmetic of
  doubles is exact); \<^verbatim>\<open>(+ a)\<close> evaluates to \<open>a\<close> for a Number \<open>a\<close>; the program
  \<^verbatim>\<open>(+ 1 2 3)\<close> evaluates to 6. The call \<^verbatim>\<open>(+ )\<close> with no argument does not reach the
  builtin: \<^verbatim>\<open>evalLisp\<close> refuses its absent argument list.
\<close>

theorem plus_sums_arguments:
  "(\<not> truthy (ctx_get (store_get s ctx) ''+'') \<and>
    evalLispArgs n (Some (Pair a d)) ctx s = Some (Inr (map Number ks, s1)) \<and>
    (\<forall>i \<le> length ks. exact (sum_list (take i ks))) \<longrightarrow>
    evalLisp (Suc (Suc n)) (Pair (Atom plus_token) (Some (Pair a d))) ctx s =
      Some (Inr (Number (sum_list ks), s1))) \<and>
   (\<not> truthy (ctx_get (store_get s ctx) ''+'') \<and>
    evalLisp (Suc n) a ctx s = Some (Inr (Number k, s1)) \<and> exact k \<longrightarrow>
    evalLisp (Suc (Suc (Suc (Suc n)))) (Pair (Atom plus_token) (Some (Pair a None))) ctx s =
      Some (Inr (Number k, s1))) \<and>
   (\<not> truthy (ctx_get (store_get s ctx) ''+'') \<longrightarrow>
    evalLisp (Suc (Suc n)) (Pair (Atom plus_token) None) ctx s =
      Some (Inl (NotALinkedList ''null''))) \<and>
   main 9 ''(+ 1 2 3)'' = Some (Inr (Number 6))"
proof (intro conjI impI)
  assume h: "\<not> truthy (ctx_get (store_get s ctx) ''+'') \<and>
    evalLispArgs n (Some (Pair a d)) ctx s = Some (Inr (map Number ks, s1)) \<and>
    (\<forall>i \<le> length ks. exact (sum_list (take i ks)))"
  then have "plus_loop 0 (map Number ks) = Inr (0 + sum_list ks)"
    by (intro plus_loop_sum) simp
  with h show "evalLisp (Suc (Suc n)) (Pair (Atom plus_token) (Some (Pair a d))) ctx s =
      Some (Inr (Number (sum_list ks), s1))"
    by (simp add: evalLisp_Pair head_plus call_Plus)
next
  assume h: "\<not> truthy (ctx_get (store_get s ctx) ''+'') \<and>
    evalLisp (Suc n) a ctx s = Some (Inr (Number k, s1)) \<and> exact k"
  then have "evalLispArgs (Suc (Suc n)) (Some (Pair a None)) ctx s = Some (Inr ([Number k], s1))"
    by (simp add: evalLispArgs.simps)
  with h show "evalLisp (Suc (Suc (Suc (Suc n)))) (Pair (Atom plus_token) (Some (Pair a None))) ctx s =
      Some (Inr (Number k, s1))"
    by (simp add: evalLisp_Pair head_plus call_Plus)
next
  assume "\<not> truthy (ctx_get (store_get s ctx) ''+'')"
  then show "evalLisp (Suc (Suc n)) (Pair (Atom plus_token) None) ctx s =
      Some (Inl (NotALinkedList ''null''))"
    by (simp add: evalLisp_Pair head_plus)
next
  show "main 9 ''(+ 1 2 3)'' = Some (Inr (Number 6))"
    by code_simp
qed

theorem plus_sums_arguments_witness:
  "evalLisp 6 (Pair (Atom plus_token)
      (list_sexp [int_atom ''1'', int_atom ''2'', int_atom ''3''])) 0 [[]] =
     Some (Inr (Number 6, [[]])) \<and>
   evalLisp 4 (Pair (Atom plus_token) (list_sexp [int_atom ''7''])) 0 [[]] =
     Some (Inr (Number 7, [[]])) \<and>
   evalLisp 2 (Pair (Atom plus_token) None) 0 [[]] = Some (Inl (NotALinkedList ''null''))"
proof -
  let ?d = "Some (Pair (int_atom ''2'') (Some (Pair (int_atom ''3'') None)))"
  have h: "\<not> truthy (ctx_get (store_get [[]] 0) ''+'')" by (simp add: store_get_def)
  have args: "evalLispArgs 4 (Some (Pair (int_atom ''1'') ?d)) 0 [[]] =
      Some (Inr (map Number [1, 2, 3], [[]]))"
    by code_simp
  have ex: "\<forall>i \<le> length [1, 2, 3 :: int]. exact (sum_list (take i [1, 2, 3]))"
  proof (intro allI impI)
    fix i :: nat
    assume "i \<le> length [1, 2, 3 :: int]"
    then have "i = 0 \<or> i = 1 \<or> i = 2 \<or> i = 3" by auto
    then show "exact (sum_list (take i [1, 2, 3]))"
      by (auto simp: exact_def exact_limit_def)
  qed
  have seven: "evalLisp (Suc 0) (int_atom ''7'') 0 [[]] = Some (Inr (Number 7, [[]]))"
    by code_simp
  have ex7: "exact 7" by (simp add: exact_def exact_limit_def)
  have n6: "(6::nat) = Suc (Suc 4)" and n4: "(4::nat) = Suc (Suc (Suc (Suc 0)))"
    and n2: "(2::nat) = Suc (Suc 0)" by simp_all
  show ?thesis
    using plus_sums_arguments [where s = "[[]]" and ctx = 0 and n = 4 and a = "int_atom ''1''"
        and d = ?d and ks = "[1, 2, 3]" and ?s1.0 = "[[]]" and k = 7, unfolded n6 [symmetric]]
      plus_sums_arguments [where s = "[[]]" and ctx = 0 and n = 0 and a = "int_atom ''7''"
        and d = None and ks = "[]" and ?s1.0 = "[[]]" and k = 7] h args ex seven ex7
    by (simp add: n4 n2)
qed

text \<open>The claim as it was stated fails at \<^verbatim>\<open>(+ )\<close>, which it says evaluates to 0.\<close>

theorem plus_no_argument_counterexample:
  "main 9 ''(+ )'' = Some (Inl (NotALinkedList ''null''))"
  by code_simp

lemma head_if:
  "\<not> truthy (ctx_get (store_get s ctx) ''if'') \<Longrightarrow>
   evalLisp (Suc n) (Atom if_token) ctx s = Some (Inr (Builtin If ctx, s))"
  by (simp add: evalLisp_Atom if_token_def)

lemma if_form_call:
  "\<not> truthy (ctx_get (store_get s ctx) ''if'') \<Longrightarrow>
   evalLisp (Suc (Suc n)) (if_form test rest) ctx s = call (Suc n) (Builtin If ctx) test rest ctx s"
  by (simp add: if_form_def evalLisp_Pair head_if)

text \<open>
  Claim C2. When the name \<^verbatim>\<open>if\<close> is not rebound, \<^verbatim>\<open>(if test then else)\<close> evaluates
  \<^verbatim>\<open>test\<close>; if its value is not falsy the form evaluates to what \<^verbatim>\<open>then\<close> evaluates to
  in the store left by the test, otherwise to what \<^verbatim>\<open>else\<close> evaluates to there: value,
  store, failure and need of fuel are those of the selected branch alone, so nothing of the
  other branch is evaluated. The form fails when the slot of \<^verbatim>\<open>then\<close> or of \<^verbatim>\<open>else\<close>
  is absent or not a Pair.
\<close>

theorem if_evaluates_selected_branch:
  "\<not> truthy (ctx_get (store_get s ctx) ''if'') \<longrightarrow>
   (evalLisp n test ctx s = Some (Inr (v, s1)) \<and> truthy v \<longrightarrow>
      evalLisp (Suc (Suc n)) (if_form test (Some (Pair true_branch (Some (Pair false_branch rest))))) ctx s =
      evalLisp n true_branch ctx s1) \<and>
   (evalLisp n test ctx s = Some (Inr (v, s1)) \<and> \<not> truthy v \<longrightarrow>
      evalLisp (Suc (Suc n)) (if_form test (Some (Pair true_branch (Some (Pair false_branch rest))))) ctx s =
      evalLisp n false_branch ctx s1) \<and>
   evalLisp (Suc (Suc n)) (if_form test None) ctx s = Some (Inl ExpectedTrueBranch) \<and>
   evalLisp (Suc (Suc n)) (if_form test (Some (Atom t))) ctx s = Some (Inl ExpectedTrueBranch) \<and>
   evalLisp (Suc (Suc n)) (if_form test (Some (Pair true_branch None))) ctx s =
     Some (Inl ExpectedFalseBranch) \<and>
   evalLisp (Suc (Suc n)) (if_form test (Some (Pair true_branch (Some (Atom t))))) ctx s =
     Some (Inl ExpectedFalseBranch)"
  by (simp add: if_form_call call_If)

theorem if_evaluates_selected_branch_witness:
  "evalLisp 5 (if_form (int_atom ''1'')
      (list_sexp [the (list_sexp [name_atom ''def'', name_atom ''a'', int_atom ''1'']),
                  the (list_sexp [name_atom ''def'', name_atom ''b'', int_atom ''2''])])) 0 [[]] =
   Some (Inr (Number 1, [[(''a'', Number 1)]])) \<and>
   evalLisp 5 (if_form (int_atom ''0'')
      (list_sexp [the (list_sexp [name_atom ''def'', name_atom ''a'', int_atom ''1'']),
                  the (list_sexp [name_atom ''def'', name_atom ''b'', int_atom ''2''])])) 0 [[]] =
   Some (Inr (Number 2, [[(''b'', Number 2)]])) \<and>
   evalLisp 5 (if_form (int_atom ''1'') (list_sexp [int_atom ''1''])) 0 [[]] =
   Some (Inl ExpectedFalseBranch)"
proof -
  let ?da = "Pair (name_atom ''def'') (Some (Pair (name_atom ''a'') (Some (Pair (int_atom ''1'') None))))"
  let ?db = "Pair (name_atom ''def'') (Some (Pair (name_atom ''b'') (Some (Pair (int_atom ''2'') None))))"
  have h: "\<not> truthy (ctx_get (store_get [[]] 0) ''if'')" by (simp add: store_get_def)
  have t1: "evalLisp 3 (int_atom ''1'') 0 [[]] = Some (Inr (Number 1, [[]]))" by code_simp
  have t0: "evalLisp 3 (int_atom ''0'') 0 [[]] = Some (Inr (Number 0, [[]]))" by code_simp
  have a: "evalLisp 3 ?da 0 [[]] = Some (Inr (Number 1, [[(''a'', Number 1)]]))" by code_simp
  have b: "evalLisp 3 ?db 0 [[]] = Some (Inr (Number 2, [[(''b'', Number 2)]]))" by code_simp
  have n4: "(5::nat) = Suc (Suc 3)" by simp
  note th1 = if_evaluates_selected_branch
    [of "[[]]" 0 3 "int_atom ''1''" "Number 1" "[[]]" ?da ?db None, unfolded n4 [symmetric]]
  note th0 = if_evaluates_selected_branch
    [of "[[]]" 0 3 "int_atom ''0''" "Number 0" "[[]]" ?da ?db None, unfolded n4 [symmetric]]
  note th2 = if_evaluates_selected_branch
    [of "[[]]" 0 3 "int_atom ''1''" "Number 1" "[[]]" "int_atom ''1''" ?db None, unfolded n4 [symmetric]]
  show ?thesis
    using th1 th0 th2 h t1 t0 a b by simp
qed

text \<open>
  Claim C5 at the input that separates the code from it: \<^verbatim>\<open><=\<close> has no check of the
  types of its arguments, and compares the Boolean \<^verbatim>\<open>true\<close> with a Number as 1.
\<close>

theorem less_eq_takes_booleans:
  "main 12 ''(<= (<= 1 2) 2)'' = Some (Inr (Boolean True))"
  by code_simp

text \<open>
  Claim C3 at the input that separates the code from it: a name bound to 0 falls through to
  the builtin table, and the lookup \<^verbatim>\<open>builtins[key]\<close> finds \<^verbatim>\<open>toString\<close>, which is none
  of the seven builtins, in the prototype of the table: no error is raised.
\<close>

theorem inherited_name_is_defined:
  "main 12 ''(def toString 0) (def y toString)'' = Some (Inr (Inherited ''toString''))"
  by code_simp

section \<open>What a lambda call leaves of the Context of the call\<close>

lemma frame_simps [simp]:
  "frame a s None" "frame a s (Some (Inl e))"
  "frame a s (Some (Inr (v, s'))) \<longleftrightarrow>
     store_free a s' \<and> \<not> captures a v \<and> store_get s' a = store_get s a \<and> length s \<le> length s'"
  by (simp_all add: frame_def)

lemma frames_simps [simp]:
  "frames a s None" "frames a s (Some (Inl e))"
  "frames a s (Some (Inr (vs, s'))) \<longleftrightarrow>
     store_free a s' \<and> list_all (\<lambda>v. \<not> captures a v) vs \<and>
     store_get s' a = store_get s a \<and> length s \<le> length s'"
  by (simp_all add: frames_def)

lemma frame_trans:
  "store_get s1 a = store_get s a \<Longrightarrow> length s \<le> length s1 \<Longrightarrow> frame a s1 r \<Longrightarrow> frame a s r"
  by (auto simp: frame_def split: option.splits sum.splits)

lemma frames_trans:
  "store_get s1 a = store_get s a \<Longrightarrow> length s \<le> length s1 \<Longrightarrow> frames a s1 r \<Longrightarrow> frames a s r"
  by (auto simp: frames_def split: option.splits sum.splits)

lemma ctx_get_free: "ctx_free a c \<Longrightarrow> \<not> captures a (ctx_get c k)"
  by (induction c) (auto simp: ctx_free_def split: if_splits)

lemma store_get_free: "store_free a s \<Longrightarrow> ctx_free a (store_get s c)"
  by (auto simp: store_free_def store_get_def ctx_free_def list_all_length)

lemma ctx_set_free: "ctx_free a c \<Longrightarrow> \<not> captures a v \<Longrightarrow> ctx_free a (ctx_set c k v)"
  by (induction c) (auto simp: ctx_free_def)

lemma store_set_free: "store_free a s \<Longrightarrow> ctx_free a c \<Longrightarrow> store_free a (store_set s i c)"
  by (cases "i < length s") (auto simp: store_free_def store_set_def list_all_length nth_list_update)

lemma store_get_set_other: "i \<noteq> a \<Longrightarrow> store_get (store_set s i c) a = store_get s a"
  by (simp add: store_get_def store_set_def)

lemma length_store_set: "length (store_set s i c) = length s"
  by (simp add: store_set_def)

lemma store_free_snoc: "store_free a s \<Longrightarrow> ctx_free a c \<Longrightarrow> store_free a (s @ [c])"
  by (simp add: store_free_def)

lemma store_get_snoc: "a < length s \<Longrightarrow> store_get (s @ [c]) a = store_get s a"
  by (simp add: store_get_def nth_append)

lemma array_get_free: "list_all (\<lambda>v. \<not> captures a v) vs \<Longrightarrow> \<not> captures a (array_get vs i)"
  by (simp add: array_get_def list_all_length)

lemma bind_params_free:
  "bind_params iter i vs c = Inr c' \<Longrightarrow> list_all (\<lambda>v. \<not> captures a v) vs \<Longrightarrow>
   ctx_free a c \<Longrightarrow> ctx_free a c'"
  by (induction iter i vs c rule: bind_params.induct)
     (auto simp: ctx_set_free array_get_free)

lemma builtins_free: "ctx \<noteq> a \<Longrightarrow> builtins ctx key = Some f \<Longrightarrow> \<not> captures a f"
  by (auto simp: builtins_def split: option.splits if_splits)

lemma frame_evalLisp_step:
  assumes eval: "\<And>ast ctx s. ctx \<noteq> a \<Longrightarrow> a < length s \<Longrightarrow> store_free a s \<Longrightarrow>
                   frame a s (evalLisp n ast ctx s)"
    and call: "\<And>fn x d ctx s. ctx \<noteq> a \<Longrightarrow> \<not> captures a fn \<Longrightarrow> a < length s \<Longrightarrow>
                   store_free a s \<Longrightarrow> frame a s (call n fn x d ctx s)"
    and pre: "ctx \<noteq> a" "a < length s" "store_free a s"
  shows "frame a s (evalLisp (Suc n) ast ctx s)"
proof (cases ast)
  case (Atom t)
  have "\<not> captures a (ctx_get (store_get s ctx) (tvalue t))"
    using pre(3) by (intro ctx_get_free store_get_free)
  then show ?thesis
    using pre Atom
    by (auto simp: evalLisp.simps split: sum.splits option.splits dest: builtins_free)
next
  case (Pair x d)
  show ?thesis
  proof (cases "evalLisp n x ctx s")
    case None
    then show ?thesis using Pair by (simp add: evalLisp.simps)
  next
    case (Some r)
    show ?thesis
    proof (cases r)
      case (Inl e)
      then show ?thesis using Pair Some by (simp add: evalLisp.simps)
    next
      case (Inr vs)
      obtain fn s1 where vs: "vs = (fn, s1)" by (cases vs)
      have f1: "frame a s (Some (Inr (fn, s1)))"
        using eval [OF pre, of x] Some Inr vs by simp
      then have pre1: "a < length s1" "store_free a s1" "\<not> captures a fn"
        using pre(2) by auto
      have "frame a s1 (call n fn a1 d1 ctx s1)" for a1 d1
        using call [OF pre(1) pre1(3) pre1(1) pre1(2)] .
      then have "frame a s (call n fn a1 d1 ctx s1)" for a1 d1
        using f1 by (intro frame_trans [of s1 a s]) auto
      then show ?thesis
        using Pair Some Inr vs
        by (auto simp: evalLisp.simps split: option.splits Sexp.splits)
    qed
  qed
qed

lemma frame_evalLispArgs_step:
  assumes eval: "\<And>ast ctx s. ctx \<noteq> a \<Longrightarrow> a < length s \<Longrightarrow> store_free a s \<Longrightarrow>
                   frame a s (evalLisp n ast ctx s)"
    and args: "\<And>cur ctx s. ctx \<noteq> a \<Longrightarrow> a < length s \<Longrightarrow> store_free a s \<Longrightarrow>
                   frames a s (evalLispArgs n cur ctx s)"
    and pre: "ctx \<noteq> a" "a < length s" "store_free a s"
  shows "frames a s (evalLispArgs (Suc n) cur ctx s)"
proof (cases cur)
  case None
  then show ?thesis using pre by (simp add: evalLispArgs.simps)
next
  case (Some node)
  show ?thesis
  proof (cases node)
    case (Atom t)
    then show ?thesis using Some by (simp add: evalLispArgs.simps)
  next
    case (Pair x d)
    show ?thesis
    proof (cases "evalLisp n x ctx s")
      case None
      then show ?thesis using Some Pair by (simp add: evalLispArgs.simps)
    next
      case r: (Some r)
      show ?thesis
      proof (cases r)
        case (Inl e)
        then show ?thesis using Some Pair r by (simp add: evalLispArgs.simps)
      next
        case (Inr vs)
        obtain v s1 where vs: "vs = (v, s1)" by (cases vs)
        have f1: "frame a s (Some (Inr (v, s1)))"
          using eval [OF pre, of x] r Inr vs by simp
        then have pre1: "a < length s1" "store_free a s1" "\<not> captures a v"
          using pre(2) by auto
        have "frames a s1 (evalLispArgs n d ctx s1)"
          using args [OF pre(1) pre1(1) pre1(2)] .
        then have "frames a s (evalLispArgs n d ctx s1)"
          using f1 by (intro frames_trans [of s1 a s]) auto
        then show ?thesis
          using Some Pair r Inr vs pre1(3)
          by (auto simp: evalLispArgs.simps split: option.splits sum.splits)
      qed
    qed
  qed
qed

lemma frame_begin_loop_step:
  assumes eval: "\<And>ast ctx s. ctx \<noteq> a \<Longrightarrow> a < length s \<Longrightarrow> store_free a s \<Longrightarrow>
                   frame a s (evalLisp n ast ctx s)"
    and loop: "\<And>cur res ctx s. ctx \<noteq> a \<Longrightarrow> \<not> captures a res \<Longrightarrow> a < length s \<Longrightarrow>
                   store_free a s \<Longrightarrow> frame a s (begin_loop n cur res ctx s)"
    and pre: "ctx \<noteq> a" "a < length s" "store_free a s" and res: "\<not> captures a res"
  shows "frame a s (begin_loop (Suc n) cur res ctx s)"
proof (cases cur)
  case None
  then show ?thesis using pre res by (simp add: begin_loop.simps)
next
  case (Some node)
  show ?thesis
  proof (cases node)
    case (Atom t)
    then show ?thesis using Some by (simp add: begin_loop.simps)
  next
    case (Pair x d)
    show ?thesis
    proof (cases "evalLisp n x ctx s")
      case None
      then show ?thesis using Some Pair by (simp add: begin_loop.simps)
    next
      case r: (Some r)
      show ?thesis
      proof (cases r)
        case (Inl e)
        then show ?thesis using Some Pair r by (simp add: begin_loop.simps)
      next
        case (Inr vs)
        obtain v s1 where vs: "vs = (v, s1)" by (cases vs)
        have f1: "frame a s (Some (Inr (v, s1)))"
          using eval [OF pre, of x] r Inr vs by simp
        then have pre1: "a < length s1" "store_free a s1" "\<not> captures a v"
          using pre(2) by auto
        have "frame a s1 (begin_loop n d v ctx s1)"
          using loop [OF pre(1) pre1(3) pre1(1) pre1(2)] .
        then have "frame a s (begin_loop n d v ctx s1)"
          using f1 by (intro frame_trans [of s1 a s]) auto
        then show ?thesis
          using Some Pair r Inr vs by (simp add: begin_loop.simps)
      qed
    qed
  qed
qed

lemma frame_call_step:
  assumes eval: "\<And>ast ctx s. ctx \<noteq> a \<Longrightarrow> a < length s \<Longrightarrow> store_free a s \<Longrightarrow>
                   frame a s (evalLisp n ast ctx s)"
    and args: "\<And>cur ctx s. ctx \<noteq> a \<Longrightarrow> a < length s \<Longrightarrow> store_free a s \<Longrightarrow>
                   frames a s (evalLispArgs n cur ctx s)"
    and loop: "\<And>cur res ctx s. ctx \<noteq> a \<Longrightarrow> \<not> captures a res \<Longrightarrow> a < length s \<Longrightarrow>
                   store_free a s \<Longrightarrow> frame a s (begin_loop n cur res ctx s)"
    and pre: "callCtx \<noteq> a" "a < length s" "store_free a s" and fn: "\<not> captures a fn"
  shows "frame a s (call (Suc n) fn x d callCtx s)"
proof (cases fn)
  case (Builtin b ctx)
  with fn have ctx: "ctx \<noteq> a" by simp
  note e = eval [OF ctx pre(2) pre(3)]
  note g = args [OF ctx pre(2) pre(3)]
  show ?thesis
  proof (cases b)
    case LessEq
    show ?thesis
      using g [of "Some (Pair x d)"] Builtin LessEq
      by (auto simp: call_LessEq split: option.splits sum.splits)
  next
    case If
    have sel: "frame a s (evalLisp n br ctx s1)"
      if "evalLisp n x ctx s = Some (Inr (test, s1))" for br test s1
    proof -
      have f1: "frame a s (Some (Inr (test, s1)))" using e [of x] that by simp
      then have "frame a s1 (evalLisp n br ctx s1)"
        using pre(2) by (intro eval [OF ctx]) auto
      then show ?thesis using f1 by (intro frame_trans [of s1 a s]) auto
    qed
    show ?thesis
      using Builtin If sel
      by (auto simp: call_If split: option.splits sum.splits Sexp.splits)
  next
    case Def
    have "frame a s (Some (Inr (v, store_set s1 ctx (ctx_set (store_get s1 ctx) k v))))"
      if "evalLisp n body ctx s = Some (Inr (v, s1))" for body v s1 k
    proof -
      have f1: "frame a s (Some (Inr (v, s1)))" using e [of body] that by simp
      then show ?thesis
        using ctx
        by (simp add: store_set_free ctx_set_free store_get_free store_get_set_other
              length_store_set)
    qed
    then show ?thesis
      using Builtin Def
      by (auto simp: call_Def split: option.splits sum.splits Sexp.splits)
  next
    case Lambda
    then show ?thesis using Builtin pre by (simp add: call_Lambda)
  next
    case Begin
    have "frame a s (begin_loop n d res ctx s1)"
      if "evalLisp n x ctx s = Some (Inr (res, s1))" for res s1
    proof -
      have f1: "frame a s (Some (Inr (res, s1)))" using e [of x] that by simp
      then have "frame a s1 (begin_loop n d res ctx s1)"
        using pre(2) by (intro loop [OF ctx]) auto
      then show ?thesis using f1 by (intro frame_trans [of s1 a s]) auto
    qed
    then show ?thesis
      using Builtin Begin by (auto simp: call_Begin split: option.splits sum.splits)
  next
    case Plus
    show ?thesis
      using g [of "Some (Pair x d)"] Builtin Plus
      by (auto simp: call_Plus split: option.splits sum.splits)
  next
    case Minus
    show ?thesis
      using g [of "Some (Pair x d)"] Builtin Minus
      by (auto simp: call_Minus split: option.splits sum.splits)
  qed
next
  case (Closure params body)
  have "frame a s (evalLisp n (Pair (name_atom ''begin'') body) (length s1) (s1 @ [child]))"
    if r: "evalLispArgs n (Some (Pair x d)) callCtx s = Some (Inr (vs, s1))"
      and b: "bind_params (Some params) 0 vs (store_get s1 callCtx) = Inr child"
    for vs s1 child
  proof -
    have f1: "frames a s (Some (Inr (vs, s1)))"
      using args [OF pre, of "Some (Pair x d)"] r by simp
    then have s1: "a < length s1" "store_free a s1" "list_all (\<lambda>v. \<not> captures a v) vs"
      using pre(2) by auto
    have "ctx_free a child"
      using b s1(3) store_get_free [OF s1(2)] by (rule bind_params_free)
    then have "store_free a (s1 @ [child])" using s1(2) by (rule store_free_snoc [rotated])
    moreover have "length s1 \<noteq> a" "a < length (s1 @ [child])" using s1(1) by auto
    ultimately have "frame a (s1 @ [child])
        (evalLisp n (Pair (name_atom ''begin'') body) (length s1) (s1 @ [child]))"
      by (intro eval)
    then show ?thesis
      using f1 s1(1) by (intro frame_trans [of "s1 @ [child]" a s]) (auto simp: store_get_snoc)
  qed
  then show ?thesis
    using Closure by (auto simp: call_Closure split: option.splits sum.splits)
qed (simp_all add: call_other)

lemma frame_all:
  "(\<forall>ast ctx s. ctx \<noteq> a \<longrightarrow> a < length s \<longrightarrow> store_free a s \<longrightarrow>
      frame a s (evalLisp n ast ctx s)) \<and>
   (\<forall>cur ctx s. ctx \<noteq> a \<longrightarrow> a < length s \<longrightarrow> store_free a s \<longrightarrow>
      frames a s (evalLispArgs n cur ctx s)) \<and>
   (\<forall>fn x d ctx s. ctx \<noteq> a \<longrightarrow> \<not> captures a fn \<longrightarrow> a < length s \<longrightarrow> store_free a s \<longrightarrow>
      frame a s (call n fn x d ctx s)) \<and>
   (\<forall>cur res ctx s. ctx \<noteq> a \<longrightarrow> \<not> captures a res \<longrightarrow> a < length s \<longrightarrow> store_free a s \<longrightarrow>
      frame a s (begin_loop n cur res ctx s))"
proof (induction n)
  case 0
  show ?case
    by (simp add: evalLisp.simps evalLispArgs.simps call.simps begin_loop.simps)
next
  case (Suc n)
  then have eval: "\<And>ast ctx s. ctx \<noteq> a \<Longrightarrow> a < length s \<Longrightarrow> store_free a s \<Longrightarrow>
                   frame a s (evalLisp n ast ctx s)"
    and args: "\<And>cur ctx s. ctx \<noteq> a \<Longrightarrow> a < length s \<Longrightarrow> store_free a s \<Longrightarrow>
                   frames a s (evalLispArgs n cur ctx s)"
    and call: "\<And>fn x d ctx s. ctx \<noteq> a \<Longrightarrow> \<not> captures a fn \<Longrightarrow> a < length s \<Longrightarrow>
                   store_free a s \<Longrightarrow> frame a s (call n fn x d ctx s)"
    and loop: "\<And>cur res ctx s. ctx \<noteq> a \<Longrightarrow> \<not> captures a res \<Longrightarrow> a < length s \<Longrightarrow>
                   store_free a s \<Longrightarrow> frame a s (begin_loop n cur res ctx s)"
    by blast+
  show ?case
  proof (intro conjI allI impI)
    fix ast ctx s
    assume pre: "ctx \<noteq> a" "a < length s" "store_free a s"
    from eval call pre show "frame a s (evalLisp (Suc n) ast ctx s)"
      by (rule frame_evalLisp_step)
  next
    fix cur ctx s
    assume pre: "ctx \<noteq> a" "a < length s" "store_free a s"
    from eval args pre show "frames a s (evalLispArgs (Suc n) cur ctx s)"
      by (rule frame_evalLispArgs_step)
  next
    fix fn x d ctx s
    assume pre: "ctx \<noteq> a" "a < length s" "store_free a s" and fn: "\<not> captures a fn"
    from eval args loop pre fn show "frame a s (call (Suc n) fn x d ctx s)"
      by (rule frame_call_step)
  next
    fix cur res ctx s
    assume pre: "ctx \<noteq> a" "a < length s" "store_free a s" and res: "\<not> captures a res"
    from eval loop pre res show "frame a s (begin_loop (Suc n) cur res ctx s)"
      by (rule frame_begin_loop_step)
  qed
qed

lemma grows_simps [simp]:
  "grows s None" "grows s (Some (Inl e))"
  "grows s (Some (Inr (v, s'))) \<longleftrightarrow> length s \<le> length s'"
  by (simp_all add: grows_def)

lemma grows_trans: "length s \<le> length s1 \<Longrightarrow> grows s1 r \<Longrightarrow> grows s r"
  by (auto simp: grows_def split: option.splits sum.splits)

lemma grows_seq:
  assumes "grows s r" and "\<And>v s1. r = Some (Inr (v, s1)) \<Longrightarrow> grows s1 (k v s1)"
  shows "grows s (case r of None \<Rightarrow> None | Some (Inl e) \<Rightarrow> Some (Inl e)
                  | Some (Inr (v, s1)) \<Rightarrow> k v s1)"
  using assms by (auto simp: grows_def split: option.splits sum.splits)

lemma grows_all:
  "(\<forall>ast ctx s. grows s (evalLisp n ast ctx s)) \<and>
   (\<forall>cur ctx s. grows s (evalLispArgs n cur ctx s)) \<and>
   (\<forall>fn x d ctx s. grows s (call n fn x d ctx s)) \<and>
   (\<forall>cur res ctx s. grows s (begin_loop n cur res ctx s))"
proof (induction n)
  case 0
  show ?case
    by (simp add: evalLisp.simps evalLispArgs.simps call.simps begin_loop.simps)
next
  case (Suc n)
  then have eval: "\<And>ast ctx s. grows s (evalLisp n ast ctx s)"
    and args: "\<And>cur ctx s. grows s (evalLispArgs n cur ctx s)"
    and call: "\<And>fn x d ctx s. grows s (call n fn x d ctx s)"
    and loop: "\<And>cur res ctx s. grows s (begin_loop n cur res ctx s)"
    by blast+
  have eval': "length s \<le> length s1" if "evalLisp n ast ctx s = Some (Inr (v, s1))"
    for ast ctx s v s1 using eval [of s ast ctx] that by simp
  have args': "length s \<le> length s1" if "evalLispArgs n cur ctx s = Some (Inr (v, s1))"
    for cur ctx s v s1 using args [of s cur ctx] that by simp
  show ?case
  proof (intro conjI allI)
    fix ast ctx s
    show "grows s (evalLisp (Suc n) ast ctx s)"
    proof (cases ast)
      case (Atom t)
      then show ?thesis by (auto simp: evalLisp.simps split: sum.splits option.splits)
    next
      case (Pair x d)
      have "grows s (call n fn a1 d1 ctx s1)" if "evalLisp n x ctx s = Some (Inr (fn, s1))"
        for fn a1 d1 s1 using eval' [OF that] call [of s1 fn a1 d1 ctx] by (rule grows_trans)
      then show ?thesis
        using Pair by (auto simp: evalLisp.simps split: option.splits sum.splits Sexp.splits)
    qed
  next
    fix cur ctx s
    have "grows s (evalLispArgs n d ctx s1)" if "evalLisp n x ctx s = Some (Inr (v, s1))"
      for x v d s1 using eval' [OF that] args [of s1 d ctx] by (rule grows_trans)
    then show "grows s (evalLispArgs (Suc n) cur ctx s)"
      by (fastforce simp: evalLispArgs.simps grows_def split: option.splits sum.splits Sexp.splits)
  next
    fix fn x d ctx s
    show "grows s (call (Suc n) fn x d ctx s)"
    proof (cases fn)
      case (Builtin b c)
      have sel: "grows s (evalLisp n br c s1)" if "evalLisp n x c s = Some (Inr (v, s1))"
        for br v s1 using eval' [OF that] eval [of s1 br c] by (rule grows_trans)
      have bl: "grows s (begin_loop n d v c s1)" if "evalLisp n x c s = Some (Inr (v, s1))"
        for v s1 using eval' [OF that] loop [of s1 d v c] by (rule grows_trans)
      show ?thesis
      proof (cases b)
        case LessEq
        then show ?thesis using Builtin args' [of "Some (Pair x d)" c s]
          by (auto simp: call_LessEq split: option.splits sum.splits)
      next
        case If
        then show ?thesis using Builtin sel
          by (auto simp: call_If split: option.splits sum.splits Sexp.splits)
      next
        case Def
        then show ?thesis using Builtin eval' [of _ c s]
          by (auto simp: call_Def length_store_set split: option.splits sum.splits Sexp.splits)
      next
        case Lambda
        then show ?thesis using Builtin by (simp add: call_Lambda)
      next
        case Begin
        then show ?thesis using Builtin bl
          by (auto simp: call_Begin split: option.splits sum.splits)
      next
        case Plus
        then show ?thesis using Builtin args' [of "Some (Pair x d)" c s]
          by (auto simp: call_Plus split: option.splits sum.splits)
      next
        case Minus
        then show ?thesis using Builtin args' [of "Some (Pair x d)" c s]
          by (auto simp: call_Minus split: option.splits sum.splits)
      qed
    next
      case (Closure params body)
      have "grows s (evalLisp n (Pair (name_atom ''begin'') body) (length s1) (s1 @ [child]))"
        if "evalLispArgs n (Some (Pair x d)) ctx s = Some (Inr (vs, s1))" for vs s1 child
        using args' [OF that] eval [of "s1 @ [child]" _ "length s1"]
        by (intro grows_trans [of s "s1 @ [child]"]) auto
      then show ?thesis
        using Closure by (auto simp: call_Closure split: option.splits sum.splits)
    qed (simp_all add: call_other)
  next
    fix cur res ctx s
    have "grows s (begin_loop n d v ctx s1)" if "evalLisp n x ctx s = Some (Inr (v, s1))"
      for x v d s1 using eval' [OF that] loop [of s1 d v ctx] by (rule grows_trans)
    then show "grows s (begin_loop (Suc n) cur res ctx s)"
      by (auto simp: begin_loop.simps split: option.splits sum.splits Sexp.splits)
  qed
qed

lemma evalLispArgs_grows:
  "evalLispArgs n cur ctx s = Some (Inr (vs, s1)) \<Longrightarrow> length s \<le> length s1"
  using grows_all [of n] by (auto simp: grows_def split: option.splits sum.splits dest!: spec)

text \<open>
  Claim C4, as amended. A call of a function made by \<^verbatim>\<open>lambda\<close> evaluates the arguments
  under the Context of the call (a \<^verbatim>\<open>def\<close> among them binds there), then copies that
  Context and binds the parameters in the copy, which is a new Context of the store: the
  Context of the call is as the arguments left it when the body starts. The body runs
  under the copy. If, when the body starts, no Context holds a builtin that closed over the
  Context of the call, then the Context of the call is after the call what it was after
  the arguments: no parameter binding and no \<^verbatim>\<open>def\<close> of the body reaches it.
\<close>

theorem lambda_call_frame:
  assumes "call (Suc n) (Closure params body) x d callCtx s = Some (Inr (v, s'))"
    and "callCtx < length s"
  shows "\<exists>vs s1 child.
      evalLispArgs n (Some (Pair x d)) callCtx s = Some (Inr (vs, s1)) \<and>
      bind_params (Some params) 0 vs (store_get s1 callCtx) = Inr child \<and>
      store_get (s1 @ [child]) callCtx = store_get s1 callCtx \<and>
      evalLisp n (Pair (name_atom ''begin'') body) (length s1) (s1 @ [child]) = Some (Inr (v, s')) \<and>
      (store_free callCtx (s1 @ [child]) \<longrightarrow> store_get s' callCtx = store_get s1 callCtx)"
proof -
  from assms(1) obtain vs s1 child where
    args: "evalLispArgs n (Some (Pair x d)) callCtx s = Some (Inr (vs, s1))"
    and bind: "bind_params (Some params) 0 vs (store_get s1 callCtx) = Inr child"
    and body: "evalLisp n (Pair (name_atom ''begin'') body) (length s1) (s1 @ [child]) =
               Some (Inr (v, s'))"
    by (auto simp: call_Closure split: option.splits sum.splits)
  from args assms(2) have lt: "callCtx < length s1"
    by (auto dest: evalLispArgs_grows)
  then have copy: "store_get (s1 @ [child]) callCtx = store_get s1 callCtx"
    by (rule store_get_snoc)
  have "store_get s' callCtx = store_get s1 callCtx" if free: "store_free callCtx (s1 @ [child])"
  proof -
    have "frame callCtx (s1 @ [child])
            (evalLisp n (Pair (name_atom ''begin'') body) (length s1) (s1 @ [child]))"
      using frame_all [of callCtx n] lt free by auto
    with body copy show ?thesis by simp
  qed
  with args bind copy body show ?thesis by blast
qed

theorem lambda_call_frame_witness:
  "call 7 (Closure (the (list_sexp [name_atom ''y'']))
             (list_sexp [the (list_sexp [name_atom ''def'', name_atom ''x'', int_atom ''5''])]))
      (int_atom ''7'') None 0 [[(''x'', Number 1)]] =
     Some (Inr (Number 5, [[(''x'', Number 1)], [(''x'', Number 5), (''y'', Number 7)]])) \<and>
   store_get [[(''x'', Number 1)], [(''x'', Number 5), (''y'', Number 7)]] 0 =
     store_get [[(''x'', Number 1)]] 0"
proof -
  let ?params = "Pair (name_atom ''y'') None"
  let ?body = "Some (Pair (Pair (name_atom ''def'')
      (Some (Pair (name_atom ''x'') (Some (Pair (int_atom ''5'') None))))) None)"
  let ?s = "[[(''x'', Number 1)]]"
  let ?s' = "[[(''x'', Number 1)], [(''x'', Number 5), (''y'', Number 7)]]"
  have c: "call (Suc 6) (Closure ?params ?body) (int_atom ''7'') None 0 ?s =
      Some (Inr (Number 5, ?s'))"
    by code_simp
  have a: "evalLispArgs 6 (Some (Pair (int_atom ''7'') None)) 0 ?s = Some (Inr ([Number 7], ?s))"
    by code_simp
  have b: "bind_params (Some ?params) 0 [Number 7] (store_get ?s 0) =
      Inr [(''x'', Number 1), (''y'', Number 7)]"
    by code_simp
  have f: "store_free 0 (?s @ [[(''x'', Number 1), (''y'', Number 7)]])"
    by code_simp
  have l: "(0::nat) < length ?s" by simp
  from lambda_call_frame [OF c l] a b f
  have "store_get ?s' 0 = store_get ?s 0" by auto
  with c show ?thesis by (simp add: eval_nat_numeral)
qed

text \<open>
  The claim as it was stated fails twice. In the first call the argument is
  \<^verbatim>\<open>(def x 2)\<close>: it runs under the Context of the call. In the second the body is
  \<^verbatim>\<open>(d x 2)\<close>, where \<^verbatim>\<open>d\<close> is bound to the builtin \<^verbatim>\<open>def\<close> looked up under the
  Context of the call: the builtin defines where it was looked up.
\<close>

theorem lambda_call_changes_caller_counterexample:
  "ctx_get (store_get [[(''x'', Number 1)]] 0) ''x'' = Number 1 \<and>
   call 7 (Closure (the (list_sexp [name_atom ''y''])) (list_sexp [name_atom ''y'']))
      (the (list_sexp [name_atom ''def'', name_atom ''x'', int_atom ''2''])) None
      0 [[(''x'', Number 1)]] =
     Some (Inr (Number 2, [[(''x'', Number 2)], [(''x'', Number 2), (''y'', Number 2)]])) \<and>
   ctx_get (store_get [[(''x'', Number 2)], [(''x'', Number 2), (''y'', Number 2)]] 0) ''x'' =
     Number 2 \<and>
   call 7 (Closure (the (list_sexp [name_atom ''y'']))
             (list_sexp [the (list_sexp [name_atom ''d'', name_atom ''x'', int_atom ''2''])]))
      (int_atom ''7'') None 0 [[(''x'', Number 1), (''d'', Builtin Def 0)]] =
     Some (Inr (Number 2, [[(''x'', Number 2), (''d'', Builtin Def 0)],
                           [(''x'', Number 1), (''d'', Builtin Def 0), (''y'', Number 7)]]))"
  by code_simp


section \<open>The lexer stops at a character it does not know\<close>

lemma lexInteger_loop_digits:
  "e \<le> k \<Longrightarrow> k < lexInteger_loop p e \<Longrightarrow> k < length p \<and> is_digit (p ! k)"
proof (induction p e rule: lexInteger_loop.induct)
  case (1 program e)
  show ?case
  proof (cases "e < length program \<and> is_digit (program ! e)")
    case True
    then have eq: "lexInteger_loop program e = lexInteger_loop program (e + 1)"
      by (subst lexInteger_loop.simps) simp
    show ?thesis
    proof (cases "k = e")
      case True
      with \<open>e < length program \<and> is_digit (program ! e)\<close> show ?thesis by simp
    next
      case False
      with 1(2) have "e + 1 \<le> k" by simp
      with 1(1) True 1(3) eq show ?thesis by simp
    qed
  next
    case False
    then have "lexInteger_loop program e = e"
      by (subst lexInteger_loop.simps) auto
    with 1(2,3) show ?thesis by simp
  qed
qed

lemma lexIdentifier_loop_chars:
  "e \<le> k \<Longrightarrow> k < lexIdentifier_loop p c e \<Longrightarrow> k < length p \<and> is_ident_char (p ! k)"
proof (induction p c e rule: lexIdentifier_loop.induct)
  case (1 program cursor e)
  let ?go = "e < length program \<and>
         (is_letter (program ! e) \<or> is_operator (program ! e) \<or>
          (e > cursor \<and> is_digit (program ! e)))"
  show ?case
  proof (cases ?go)
    case True
    then have eq: "lexIdentifier_loop program cursor e = lexIdentifier_loop program cursor (e + 1)"
      by (subst lexIdentifier_loop.simps) simp
    show ?thesis
    proof (cases "k = e")
      case True
      with \<open>?go\<close> show ?thesis by (auto simp: is_ident_char_def)
    next
      case False
      with 1(2) have "e + 1 \<le> k" by simp
      with 1(1) True 1(3) eq show ?thesis by simp
    qed
  next
    case False
    then have "lexIdentifier_loop program cursor e = e"
      by (subst lexIdentifier_loop.simps) auto
    with 1(2,3) show ?thesis by simp
  qed
qed

lemma lex_loop_unknown:
  "i \<le> j \<Longrightarrow> j < length program \<Longrightarrow> is_unknown (program ! j) \<Longrightarrow>
   \<exists>rest k. lex_loop program i tokens = Inl (UnknownToken rest k)"
proof (induction program i tokens rule: lex_loop.induct)
  case (1 program i tokens)
  from 1(5,6) have inb: "i < length program" by simp
  let ?c = "program ! i"
  let ?ws = "?c = CHR '' '' \<or> ?c = CHR 0x0A \<or> ?c = CHR 0x09 \<or> ?c = CHR 0x0D"
  let ?par = "?c = CHR '')'' \<or> ?c = CHR ''(''"
  show ?case
  proof (cases ?ws)
    case True
    then have "j \<noteq> i" using 1(7) by (auto simp: is_unknown_def is_whitespace_def)
    with 1(5) have "i + 1 \<le> j" by simp
    from 1(1) [OF _ refl True this 1(6) 1(7)] inb
    obtain rest k where "lex_loop program (i + 1) tokens = Inl (UnknownToken rest k)" by auto
    then show ?thesis
      using inb True by (subst lex_loop.simps) (simp add: Let_def)
  next
    case ws: False
    show ?thesis
    proof (cases ?par)
      case True
      then have "j \<noteq> i" using 1(7) by (auto simp: is_unknown_def is_paren_def)
      with 1(5) have "i + 1 \<le> j" by simp
      from 1(2) [OF _ refl ws True this 1(6) 1(7)] inb
      obtain rest k where
        "lex_loop program (i + 1) (tokens @ [\<lparr>tvalue = [?c], tkind = Syntax\<rparr>]) =
         Inl (UnknownToken rest k)" by auto
      then show ?thesis
        using inb ws True by (subst lex_loop.simps) (simp add: Let_def)
    next
      case par: False
      show ?thesis
      proof (cases "fst (lexInteger program i) \<noteq> i")
        case True
        let ?nc = "fst (lexInteger program i)"
        have nc: "?nc = lexInteger_loop program i" by (simp add: lexInteger_def Let_def)
        have "\<not> j < ?nc"
          using lexInteger_loop_digits [OF 1(5), of program] 1(7) nc
          by (auto simp: is_unknown_def is_ident_char_def)
        moreover have "i \<le> ?nc" using nc by (simp add: lexInteger_loop_ge)
        ultimately have "?nc - 1 + 1 \<le> j" using True by simp
        from 1(3) [OF _ refl ws par True this 1(6) 1(7)] inb
        obtain rest k where
          "lex_loop program (?nc - 1 + 1) (tokens @ [snd (lexInteger program i)]) =
           Inl (UnknownToken rest k)" by auto
        then show ?thesis
          using inb ws par True by (subst lex_loop.simps) (simp add: Let_def)
      next
        case int: False
        show ?thesis
        proof (cases "fst (lexIdentifier program i) \<noteq> i")
          case True
          let ?nc = "fst (lexIdentifier program i)"
          have nc: "?nc = lexIdentifier_loop program i i" by (simp add: lexIdentifier_def Let_def)
          have "\<not> j < ?nc"
            using lexIdentifier_loop_chars [OF 1(5), of program i] 1(7) nc
            by (auto simp: is_unknown_def)
          moreover have "i \<le> ?nc" using nc by (simp add: lexIdentifier_loop_ge)
          ultimately have "?nc - 1 + 1 \<le> j" using True by simp
          from 1(4) [OF _ refl ws par int True this 1(6) 1(7)] inb
          obtain rest k where
            "lex_loop program (?nc - 1 + 1) (tokens @ [snd (lexIdentifier program i)]) =
             Inl (UnknownToken rest k)" by auto
          then show ?thesis
            using inb ws par int True by (subst lex_loop.simps) (simp add: Let_def)
        next
          case False
          then show ?thesis
            using inb ws par int by (subst lex_loop.simps) (simp add: Let_def)
        qed
      qed
    qed
  qed
qed

lemma dot_unknown: "is_unknown CHR ''.''"
  by (simp add: is_unknown_def is_whitespace_def is_paren_def is_ident_char_def
        is_letter_def is_operator_def is_digit_def)

lemma pretty_Pair_dot:
  "\<exists>j < length (pretty (Pair a d)). is_unknown (pretty (Pair a d) ! j)"
proof -
  have "length (pretty a) + 2 < length (pretty (Pair a d)) \<and>
        pretty (Pair a d) ! (length (pretty a) + 2) = CHR ''.''"
    by (cases d) (simp_all add: nth_append)
  then show ?thesis using dot_unknown by metis
qed

lemma lex_pretty_Pair:
  "\<exists>rest k. lex (pretty (Pair a d)) = Inl (UnknownToken rest k)"
proof -
  obtain j where "j < length (pretty (Pair a d))" "is_unknown (pretty (Pair a d) ! j)"
    using pretty_Pair_dot by blast
  then show ?thesis
    unfolding lex_def by (intro lex_loop_unknown [of 0 j]) simp_all
qed


section \<open>What the parser returns\<close>

lemma parse_open:
  "cursor < length tokens \<Longrightarrow> tvalue (tokens ! cursor) = ''('' \<Longrightarrow>
   parse tokens cursor = parse_loop tokens (cursor + 1) None"
  by (subst parse.simps) simp

lemma parse_Inr_open:
  "parse tokens cursor = Inr (nc, r) \<Longrightarrow>
   cursor < length tokens \<and> tvalue (tokens ! cursor) = ''('' \<and>
   parse_loop tokens (cursor + 1) None = Inr (nc, r)"
  by (subst (asm) parse.simps) (simp split: if_splits)

lemma parse_loop_end:
  "\<not> cursor < length tokens \<Longrightarrow> parse_loop tokens cursor siblings = Inr (cursor, siblings)"
  by (subst parse_loop.simps) simp

lemma parse_loop_close:
  "cursor < length tokens \<Longrightarrow> tvalue (tokens ! cursor) = '')'' \<Longrightarrow>
   parse_loop tokens cursor siblings = Inr (cursor, siblings)"
  by (subst parse_loop.simps) simp

lemma parse_loop_atom:
  "cursor < length tokens \<Longrightarrow> tvalue (tokens ! cursor) \<noteq> ''('' \<Longrightarrow>
   tvalue (tokens ! cursor) \<noteq> '')'' \<Longrightarrow>
   parse_loop tokens cursor siblings =
     (case append_sexp siblings (Some (Atom (tokens ! cursor))) of
        Inl e \<Rightarrow> Inl e
      | Inr s \<Rightarrow> parse_loop tokens (cursor + 1) (Some s))"
  by (subst parse_loop.simps) (simp add: makeSexpAtom_def)

lemma parse_loop_open:
  "cursor < length tokens \<Longrightarrow> tvalue (tokens ! cursor) = ''('' \<Longrightarrow>
   parse_loop tokens cursor siblings =
     (case parse tokens cursor of
        Inl e \<Rightarrow> Inl e
      | Inr (newCursor, child) \<Rightarrow>
          (case child of
             None \<Rightarrow> Inl ExpectedChild
           | Some c \<Rightarrow>
               (case append_sexp siblings (Some c) of
                  Inl e \<Rightarrow> Inl e
                | Inr s \<Rightarrow> parse_loop tokens (newCursor + 1) (Some s))))"
  by (subst parse_loop.simps) simp

lemma append_sexp_Pair: "append_sexp f s = Inr r \<Longrightarrow> \<exists>a d. r = Pair a d"
  by (induction f s rule: append_sexp.induct) (auto simp: makeSexpPair_def split: sum.splits)

lemma append_sexp_Some: "\<exists>r. append_sexp f (Some c) = Inr r"
proof (induction f "Some c" rule: append_sexp.induct)
  case (4 a d)
  then show ?case by (auto simp: makeSexpPair_def)
qed (simp_all add: makeSexpPair_def)

text \<open>The cases of one round of the loop, for proofs about it.\<close>

lemma parse_loop_cases:
  assumes "parse_loop tokens cursor siblings = Inr (nc, r)"
  obtains (ended) "\<not> cursor < length tokens" "nc = cursor" "r = siblings"
  | (closed) "cursor < length tokens" "tvalue (tokens ! cursor) = '')''" "nc = cursor" "r = siblings"
  | (atom) s where "cursor < length tokens" "tvalue (tokens ! cursor) \<noteq> ''(''"
      "tvalue (tokens ! cursor) \<noteq> '')''"
      "append_sexp siblings (Some (Atom (tokens ! cursor))) = Inr s"
      "parse_loop tokens (cursor + 1) (Some s) = Inr (nc, r)"
  | (nested) c1 child s where "cursor < length tokens" "tvalue (tokens ! cursor) = ''(''"
      "parse tokens cursor = Inr (c1, Some child)"
      "append_sexp siblings (Some child) = Inr s"
      "parse_loop tokens (c1 + 1) (Some s) = Inr (nc, r)"
proof (cases "cursor < length tokens")
  case False
  with assms have "nc = cursor" "r = siblings" by (simp_all add: parse_loop_end)
  with False show ?thesis by (rule ended)
next
  case inb: True
  show ?thesis
  proof (cases "tvalue (tokens ! cursor) = ''(''")
    case True
    with inb assms obtain c1 child s where
      "parse tokens cursor = Inr (c1, Some child)"
      "append_sexp siblings (Some child) = Inr s"
      "parse_loop tokens (c1 + 1) (Some s) = Inr (nc, r)"
      by (auto simp: parse_loop_open split: sum.splits option.splits)
    with inb True show ?thesis by (rule nested)
  next
    case False
    show ?thesis
    proof (cases "tvalue (tokens ! cursor) = '')''")
      case True
      with inb assms have "nc = cursor" "r = siblings" by (simp_all add: parse_loop_close)
      with inb True show ?thesis by (rule closed)
    next
      case nc: False
      with False inb assms obtain s where
        "append_sexp siblings (Some (Atom (tokens ! cursor))) = Inr s"
        "parse_loop tokens (cursor + 1) (Some s) = Inr (nc, r)"
        by (auto simp: parse_loop_atom split: sum.splits)
      with inb False nc show ?thesis by (rule atom)
    qed
  qed
qed

lemma parse_loop_keeps_Some:
  "parse_loop tokens cursor siblings = Inr (nc, r) \<Longrightarrow> siblings \<noteq> None \<Longrightarrow> r \<noteq> None"
proof (induction "length tokens - cursor" arbitrary: cursor siblings rule: less_induct)
  case less
  from less.prems(1) show ?case
  proof (cases rule: parse_loop_cases)
    case ended
    with less.prems(2) show ?thesis by simp
  next
    case closed
    with less.prems(2) show ?thesis by simp
  next
    case (atom s)
    then show ?thesis using less.hyps [of "cursor + 1" "Some s"] by auto
  next
    case (nested c1 child s)
    from nested(3) have "cursor < c1" by (rule parse_cursor_mono(1))
    with nested show ?thesis using less.hyps [of "c1 + 1" "Some s"] by auto
  qed
qed

lemma parse_child_present:
  assumes "parse tokens cursor = Inr (nc, r)" and "cursor + 1 < length tokens"
    and "tvalue (tokens ! (cursor + 1)) \<noteq> '')''"
  shows "r \<noteq> None"
proof -
  have "parse_loop tokens (cursor + 1) None = Inr (nc, r)"
    using parse_Inr_open [OF assms(1)] by simp
  then show ?thesis
  proof (cases rule: parse_loop_cases)
    case (atom s)
    then show ?thesis by (auto dest: parse_loop_keeps_Some)
  next
    case (nested c1 child s)
    then show ?thesis by (auto dest: parse_loop_keeps_Some)
  qed (use assms in simp_all)
qed

lemma parse_loop_result_Pair:
  "parse_loop tokens cursor siblings = Inr (nc, Some r) \<Longrightarrow>
   (\<forall>x. siblings = Some x \<longrightarrow> (\<exists>a d. x = Pair a d)) \<Longrightarrow> \<exists>a d. r = Pair a d"
proof (induction "length tokens - cursor" arbitrary: cursor siblings rule: less_induct)
  case less
  from less.prems(1) show ?case
  proof (cases rule: parse_loop_cases)
    case ended
    with less.prems(2) show ?thesis by simp
  next
    case closed
    with less.prems(2) show ?thesis by simp
  next
    case (atom s)
    from atom(4) obtain a d where "s = Pair a d" by (auto dest: append_sexp_Pair)
    with atom show ?thesis using less.hyps [of "cursor + 1" "Some s"] by auto
  next
    case (nested c1 child s)
    from nested(3) have "cursor < c1" by (rule parse_cursor_mono(1))
    moreover from nested(4) obtain a d where "s = Pair a d" by (auto dest: append_sexp_Pair)
    ultimately show ?thesis using nested less.hyps [of "c1 + 1" "Some s"] by auto
  qed
qed

lemma parse_result_Pair: "parse tokens cursor = Inr (nc, Some r) \<Longrightarrow> \<exists>a d. r = Pair a d"
  by (auto dest!: parse_Inr_open dest: parse_loop_result_Pair)


lemma no_empty_form_mono: "no_empty_form tokens i \<Longrightarrow> i \<le> j \<Longrightarrow> no_empty_form tokens j"
  by (auto simp: no_empty_form_def)

lemma parse_loop_only_ExpectedChild:
  "(\<exists>nc r. parse_loop tokens cursor siblings = Inr (nc, r)) \<or>
   parse_loop tokens cursor siblings = Inl ExpectedChild"
proof (induction "length tokens - cursor" arbitrary: cursor siblings rule: less_induct)
  case less
  show ?case
  proof (cases "cursor < length tokens")
    case False
    then show ?thesis by (simp add: parse_loop_end)
  next
    case inb: True
    show ?thesis
    proof (cases "tvalue (tokens ! cursor) = ''(''")
      case True
      have p: "parse tokens cursor = parse_loop tokens (cursor + 1) None"
        using inb True by (rule parse_open)
      have m: "length tokens - (cursor + 1) < length tokens - cursor" using inb by simp
      from less [OF m, of None]
      consider (ok) c1 child where "parse tokens cursor = Inr (c1, child)"
        | (err) "parse tokens cursor = Inl ExpectedChild"
        unfolding p by auto
      then show ?thesis
      proof cases
        case ok
        show ?thesis
        proof (cases child)
          case None
          with ok inb True show ?thesis by (simp add: parse_loop_open)
        next
          case (Some c)
          obtain s where s: "append_sexp siblings (Some c) = Inr s"
            using append_sexp_Some by blast
          from ok have "cursor < c1" by (rule parse_cursor_mono(1))
          with inb have "length tokens - (c1 + 1) < length tokens - cursor" by simp
          then have "(\<exists>nc r. parse_loop tokens (c1 + 1) (Some s) = Inr (nc, r)) \<or>
                parse_loop tokens (c1 + 1) (Some s) = Inl ExpectedChild" by (rule less)
          with ok Some s inb True show ?thesis by (simp add: parse_loop_open)
        qed
      next
        case err
        with inb True show ?thesis by (simp add: parse_loop_open)
      qed
    next
      case False
      show ?thesis
      proof (cases "tvalue (tokens ! cursor) = '')''")
        case True
        with inb show ?thesis by (simp add: parse_loop_close)
      next
        case nc: False
        obtain s where s: "append_sexp siblings (Some (Atom (tokens ! cursor))) = Inr s"
          using append_sexp_Some by blast
        have "length tokens - (cursor + 1) < length tokens - cursor" using inb by simp
        then have "(\<exists>nc r. parse_loop tokens (cursor + 1) (Some s) = Inr (nc, r)) \<or>
              parse_loop tokens (cursor + 1) (Some s) = Inl ExpectedChild" by (rule less)
        with s inb False nc show ?thesis by (simp add: parse_loop_atom)
      qed
    qed
  qed
qed

lemma no_empty_formD:
  "no_empty_form tokens from \<Longrightarrow> from \<le> i \<Longrightarrow> i < length tokens \<Longrightarrow>
   tvalue (tokens ! i) = ''('' \<Longrightarrow>
   i + 1 < length tokens \<and> tvalue (tokens ! (i + 1)) \<noteq> '')''"
  unfolding no_empty_form_def by (drule bspec [of _ _ i]) simp_all


lemma parse_loop_no_empty_form:
  "no_empty_form tokens cursor \<Longrightarrow> \<exists>nc r. parse_loop tokens cursor siblings = Inr (nc, r)"
proof (induction "length tokens - cursor" arbitrary: cursor siblings rule: less_induct)
  case less
  show ?case
  proof (cases "cursor < length tokens")
    case False
    then show ?thesis by (simp add: parse_loop_end)
  next
    case inb: True
    have next_free: "no_empty_form tokens (cursor + 1)"
      using less.prems by (rule no_empty_form_mono) simp
    have next_less: "length tokens - (cursor + 1) < length tokens - cursor"
      using inb by simp
    show ?thesis
    proof (cases "tvalue (tokens ! cursor) = ''(''")
      case True
      have p: "parse tokens cursor = parse_loop tokens (cursor + 1) None"
        using inb True by (rule parse_open)
      have nxt: "cursor + 1 < length tokens \<and> tvalue (tokens ! (cursor + 1)) \<noteq> '')''"
        using less.prems _ inb True by (rule no_empty_formD) simp
      have "\<exists>nc r. parse_loop tokens (cursor + 1) None = Inr (nc, r)"
        using next_less next_free by (rule less.hyps)
      then obtain c1 child where ok: "parse tokens cursor = Inr (c1, child)"
        unfolding p by (elim exE)
      have "child \<noteq> None"
        using ok nxt by (intro parse_child_present [of tokens cursor c1 child]) simp_all
      then obtain c where c: "child = Some c" by (cases child) simp_all
      obtain s where s: "append_sexp siblings (Some c) = Inr s"
        using append_sexp_Some [of siblings c] by (elim exE)
      from ok have lt: "cursor < c1" by (rule parse_cursor_mono(1))
      have "no_empty_form tokens (c1 + 1)"
        using less.prems by (rule no_empty_form_mono) (use lt in simp)
      moreover have "length tokens - (c1 + 1) < length tokens - cursor"
        using inb lt by simp
      ultimately have "\<exists>nc r. parse_loop tokens (c1 + 1) (Some s) = Inr (nc, r)"
        by (intro less.hyps)
      then show ?thesis
        using ok c s inb True by (simp add: parse_loop_open)
    next
      case False
      show ?thesis
      proof (cases "tvalue (tokens ! cursor) = '')''")
        case True
        with inb show ?thesis by (simp add: parse_loop_close)
      next
        case nc: False
        obtain s where s: "append_sexp siblings (Some (Atom (tokens ! cursor))) = Inr s"
          using append_sexp_Some [of siblings "Atom (tokens ! cursor)"] by (elim exE)
        have "\<exists>nc r. parse_loop tokens (cursor + 1) (Some s) = Inr (nc, r)"
          using next_less next_free by (rule less.hyps)
        then show ?thesis
          using s inb False nc by (simp add: parse_loop_atom)
      qed
    qed
  qed
qed


lemma parse_loop_stops:
  "parse_loop tokens cursor siblings = Inr (nc, r) \<Longrightarrow>
   (nc < length tokens \<and> tvalue (tokens ! nc) = '')'') \<or> length tokens \<le> nc"
proof (induction "length tokens - cursor" arbitrary: cursor siblings rule: less_induct)
  case less
  from less.prems show ?case
  proof (cases rule: parse_loop_cases)
    case (atom s)
    then show ?thesis using less.hyps [of "cursor + 1" "Some s"] by auto
  next
    case (nested c1 child s)
    from nested(3) have "cursor < c1" by (rule parse_cursor_mono(1))
    with nested show ?thesis using less.hyps [of "c1 + 1" "Some s"] by auto
  qed auto
qed

lemma append_list_sexp:
  "\<exists>r. append_sexp (list_sexp xs) (Some x) = Inr r \<and> list_sexp (xs @ [x]) = Some r"
  by (induction xs) (auto simp: makeSexpPair_def)

lemma parse_loop_atoms:
  "\<forall>t \<in> set atoms. tvalue t \<noteq> ''('' \<and> tvalue t \<noteq> '')'' \<Longrightarrow>
   parse_loop (pre @ atoms) (length pre) (list_sexp xs) =
     Inr (length pre + length atoms, list_sexp (xs @ map Atom atoms))"
proof (induction atoms arbitrary: pre xs)
  case Nil
  then show ?case by (simp add: parse_loop_end)
next
  case (Cons t atoms)
  obtain r where r: "append_sexp (list_sexp xs) (Some (Atom t)) = Inr r"
    "list_sexp (xs @ [Atom t]) = Some r"
    using append_list_sexp by blast
  have "parse_loop ((pre @ [t]) @ atoms) (length (pre @ [t])) (list_sexp (xs @ [Atom t])) =
     Inr (length (pre @ [t]) + length atoms, list_sexp ((xs @ [Atom t]) @ map Atom atoms))"
    using Cons.prems by (intro Cons.IH) simp
  then have "parse_loop (pre @ t # atoms) (length pre + 1) (Some r) =
     Inr (length pre + length (t # atoms), list_sexp (xs @ map Atom (t # atoms)))"
    using r(2) by simp
  then show ?case
    using Cons.prems r(1) by (simp add: parse_loop_atom)
qed

text \<open>
  Claim C7, as amended. When the tokens run out before the closing parenthesis of the
  form, \<^verbatim>\<open>parse\<close> raises no error for it: the loop ends and returns the list built so
  far with the cursor it reached. \<^verbatim>\<open>parse\<close> returns either on a closing parenthesis or
  past the last token; from an opening parenthesis its only error is \<open>ExpectedChild\<close>, for
  a nested form that is empty when it ends, terminated or not; when no nested form is
  empty it returns. A form of atoms only with no closing parenthesis is returned whole.
\<close>

theorem parse_accepts_unterminated:
  "(length tokens \<le> cursor \<longrightarrow> parse_loop tokens cursor siblings = Inr (cursor, siblings)) \<and>
   (parse tokens cursor = Inr (nc, r) \<longrightarrow>
      (nc < length tokens \<and> tvalue (tokens ! nc) = '')'') \<or> length tokens \<le> nc) \<and>
   (cursor < length tokens \<and> tvalue (tokens ! cursor) = ''('' \<longrightarrow>
      (\<exists>nc r. parse tokens cursor = Inr (nc, r)) \<or> parse tokens cursor = Inl ExpectedChild) \<and>
   (cursor < length tokens \<and> tvalue (tokens ! cursor) = ''('' \<and>
    no_empty_form tokens (cursor + 1) \<longrightarrow>
      (\<exists>nc r. parse tokens cursor = Inr (nc, r))) \<and>
   ((\<forall>t \<in> set atoms. tvalue t \<noteq> ''('' \<and> tvalue t \<noteq> '')'') \<longrightarrow>
      parse (open_paren # atoms) 0 = Inr (length atoms + 1, list_sexp (map Atom atoms)))"
proof (intro conjI impI)
  assume "length tokens \<le> cursor"
  then show "parse_loop tokens cursor siblings = Inr (cursor, siblings)"
    by (simp add: parse_loop_end)
next
  assume "parse tokens cursor = Inr (nc, r)"
  then have "parse_loop tokens (cursor + 1) None = Inr (nc, r)"
    using parse_Inr_open by blast
  then show "(nc < length tokens \<and> tvalue (tokens ! nc) = '')'') \<or> length tokens \<le> nc"
    by (rule parse_loop_stops)
next
  assume "cursor < length tokens \<and> tvalue (tokens ! cursor) = ''(''"
  then show "(\<exists>nc r. parse tokens cursor = Inr (nc, r)) \<or> parse tokens cursor = Inl ExpectedChild"
    using parse_loop_only_ExpectedChild [of tokens "cursor + 1" None] by (simp add: parse_open)
next
  assume "cursor < length tokens \<and> tvalue (tokens ! cursor) = ''('' \<and>
    no_empty_form tokens (cursor + 1)"
  then show "\<exists>nc r. parse tokens cursor = Inr (nc, r)"
    using parse_loop_no_empty_form [of tokens "cursor + 1" None] by (simp add: parse_open)
next
  assume a: "\<forall>t \<in> set atoms. tvalue t \<noteq> ''('' \<and> tvalue t \<noteq> '')''"
  have "parse (open_paren # atoms) 0 = parse_loop ([open_paren] @ atoms) (length [open_paren]) (list_sexp [])"
    by (simp add: parse_open open_paren_def)
  also have "\<dots> = Inr (length [open_paren] + length atoms, list_sexp ([] @ map Atom atoms))"
    using a by (rule parse_loop_atoms)
  finally show "parse (open_paren # atoms) 0 = Inr (length atoms + 1, list_sexp (map Atom atoms))"
    by simp
qed

theorem parse_accepts_unterminated_witness:
  "parse_loop [open_paren] 1 None = Inr (1, None) \<and>
   parse [open_paren, \<lparr>tvalue = ''a'', tkind = Identifier\<rparr>, open_paren,
          \<lparr>tvalue = ''b'', tkind = Identifier\<rparr>] 0 =
     Inr (5, list_sexp [name_atom ''a'', the (list_sexp [name_atom ''b''])]) \<and>
   parse [open_paren, \<lparr>tvalue = ''+'', tkind = Identifier\<rparr>, \<lparr>tvalue = ''1'', tkind = Integer\<rparr>] 0 =
     Inr (3, list_sexp [name_atom ''+'', int_atom ''1''])"
proof -
  let ?a = "\<lparr>tvalue = ''a'', tkind = Identifier\<rparr>"
  let ?b = "\<lparr>tvalue = ''b'', tkind = Identifier\<rparr>"
  let ?nested = "[open_paren, ?a, open_paren, ?b]"
  let ?flat = "[\<lparr>tvalue = ''+'', tkind = Identifier\<rparr>, \<lparr>tvalue = ''1'', tkind = Integer\<rparr>]"
  have n: "parse ?nested 0 = Inr (5, list_sexp [name_atom ''a'', the (list_sexp [name_atom ''b''])])"
    by code_simp
  have h1: "(0::nat) < length ?nested \<and> tvalue (?nested ! 0) = ''('' \<and> no_empty_form ?nested (0 + 1)"
    by code_simp
  have h2: "\<forall>t \<in> set ?flat. tvalue t \<noteq> ''('' \<and> tvalue t \<noteq> '')''" by simp
  from parse_accepts_unterminated [where tokens = "[open_paren]" and cursor = 1
      and siblings = None and atoms = ?flat]
    parse_accepts_unterminated [where tokens = ?nested and cursor = 0] n h1 h2
  show ?thesis
    by (simp add: name_atom_def int_atom_def)
qed

text \<open>
  The claim as it was stated fails when the unterminated form is a nested one with nothing
  in it: \<^verbatim>\<open>((\<close> raises \<open>ExpectedChild\<close>.
\<close>

theorem parse_unterminated_counterexample:
  "parse [open_paren, open_paren] 0 = Inl ExpectedChild"
  by code_simp

text \<open>
  Claim C6, as amended. There is no round trip through the pretty-printer: whatever
  \<^verbatim>\<open>parse\<close> returns is a Pair, \<^verbatim>\<open>pretty\<close> prints a Pair with a dot, and the lexer has
  no token for a dot: lexing the printed text fails with the unknown-token error.
\<close>

theorem pretty_output_is_not_lexed:
  "parse tokens cursor = Inr (nc, Some sexp) \<longrightarrow>
   (\<exists>rest i. lex (pretty sexp) = Inl (UnknownToken rest i))"
proof
  assume "parse tokens cursor = Inr (nc, Some sexp)"
  then obtain a d where "sexp = Pair a d" by (auto dest: parse_result_Pair)
  then show "\<exists>rest i. lex (pretty sexp) = Inl (UnknownToken rest i)"
    using lex_pretty_Pair by simp
qed

theorem pretty_output_is_not_lexed_witness:
  "\<exists>rest i. lex (pretty (Pair (name_atom ''a'') None)) = Inl (UnknownToken rest i)"
proof -
  have "parse [open_paren, \<lparr>tvalue = ''a'', tkind = Identifier\<rparr>,
                \<lparr>tvalue = '')'', tkind = Syntax\<rparr>] 0 =
        Inr (2, Some (Pair (name_atom ''a'') None))"
    by code_simp
  with pretty_output_is_not_lexed show ?thesis by blast
qed

text \<open>The claim as it was stated fails at the program \<^verbatim>\<open>(a)\<close>.\<close>

theorem pretty_round_trip_counterexample:
  "lex ''(a)'' = Inr [open_paren, \<lparr>tvalue = ''a'', tkind = Identifier\<rparr>,
                      \<lparr>tvalue = '')'', tkind = Syntax\<rparr>] \<and>
   parse [open_paren, \<lparr>tvalue = ''a'', tkind = Identifier\<rparr>,
          \<lparr>tvalue = '')'', tkind = Syntax\<rparr>] 0 = Inr (2, Some (Pair (name_atom ''a'') None)) \<and>
   pretty (Pair (name_atom ''a'') None) = ''(a . NIL)'' \<and>
   lex ''(a . NIL)'' = Inl (UnknownToken ''. NIL)'' 3)"
  by code_simp


section \<open>The lexer on lexemes separated by whitespace\<close>

lemma digit_classes:
  "is_digit c \<Longrightarrow> \<not> is_whitespace c \<and> \<not> is_paren c \<and> \<not> is_letter c \<and> \<not> is_operator c"
  by (auto simp: is_digit_def is_whitespace_def is_paren_def is_letter_def is_operator_def
        less_eq_char_def)

lemma letter_classes:
  "is_letter c \<Longrightarrow> \<not> is_whitespace c \<and> \<not> is_paren c \<and> \<not> is_digit c"
  by (auto simp: is_digit_def is_whitespace_def is_paren_def is_letter_def less_eq_char_def)

lemma operator_classes:
  "is_operator c \<Longrightarrow> \<not> is_whitespace c \<and> \<not> is_paren c \<and> \<not> is_digit c"
  by (auto simp: is_digit_def is_whitespace_def is_paren_def is_operator_def less_eq_char_def)

lemma whitespace_classes:
  "is_whitespace c \<Longrightarrow> \<not> is_paren c \<and> \<not> is_ident_char c"
  by (auto simp: is_digit_def is_whitespace_def is_paren_def is_letter_def is_operator_def
        is_ident_char_def less_eq_char_def)

lemma lexInteger_loop_run:
  "(\<forall>k < m. e + k < length p \<and> is_digit (p ! (e + k))) \<Longrightarrow>
   length p \<le> e + m \<or> \<not> is_digit (p ! (e + m)) \<Longrightarrow>
   lexInteger_loop p e = e + m"
proof (induction m arbitrary: e)
  case 0
  then show ?case by (subst lexInteger_loop.simps) auto
next
  case (Suc m)
  from Suc.prems(1) have here: "e < length p \<and> is_digit (p ! e)"
    by (metis add.right_neutral zero_less_Suc)
  have "\<forall>k < m. e + 1 + k < length p \<and> is_digit (p ! (e + 1 + k))"
  proof (intro allI impI)
    fix k assume "k < m"
    then show "e + 1 + k < length p \<and> is_digit (p ! (e + 1 + k))"
      using Suc.prems(1) [rule_format, of "Suc k"] by simp
  qed
  moreover have "length p \<le> e + 1 + m \<or> \<not> is_digit (p ! (e + 1 + m))"
    using Suc.prems(2) by simp
  ultimately have "lexInteger_loop p (e + 1) = e + 1 + m" by (rule Suc.IH)
  then show ?case using here by (subst lexInteger_loop.simps) simp
qed

lemma lexIdentifier_loop_run:
  "c < e \<Longrightarrow> (\<forall>k < m. e + k < length p \<and> is_ident_char (p ! (e + k))) \<Longrightarrow>
   length p \<le> e + m \<or> \<not> is_ident_char (p ! (e + m)) \<Longrightarrow>
   lexIdentifier_loop p c e = e + m"
proof (induction m arbitrary: e)
  case 0
  then show ?case
    by (subst lexIdentifier_loop.simps) (auto simp: is_ident_char_def)
next
  case (Suc m)
  from Suc.prems(2) have here: "e < length p \<and> is_ident_char (p ! e)"
    by (metis add.right_neutral zero_less_Suc)
  have "\<forall>k < m. e + 1 + k < length p \<and> is_ident_char (p ! (e + 1 + k))"
  proof (intro allI impI)
    fix k assume "k < m"
    then show "e + 1 + k < length p \<and> is_ident_char (p ! (e + 1 + k))"
      using Suc.prems(2) [rule_format, of "Suc k"] by simp
  qed
  moreover have "length p \<le> e + 1 + m \<or> \<not> is_ident_char (p ! (e + 1 + m))"
    using Suc.prems(3) by simp
  moreover have "c < e + 1" using Suc.prems(1) by simp
  ultimately have "lexIdentifier_loop p c (e + 1) = e + 1 + m" by (intro Suc.IH)
  then show ?case
    using here Suc.prems(1)
    by (subst lexIdentifier_loop.simps) (auto simp: is_ident_char_def)
qed

lemma lexIdentifier_loop_start:
  "e < length p \<Longrightarrow> is_letter (p ! e) \<or> is_operator (p ! e) \<Longrightarrow>
   lexIdentifier_loop p e e = lexIdentifier_loop p e (e + 1)"
  by (subst lexIdentifier_loop.simps) auto


lemma lex_loop_end: "\<not> i < length p \<Longrightarrow> lex_loop p i ts = Inr ts"
  by (subst lex_loop.simps) simp

lemma lex_loop_whitespace_step:
  "i < length p \<Longrightarrow> is_whitespace (p ! i) \<Longrightarrow> lex_loop p i ts = lex_loop p (i + 1) ts"
  by (subst lex_loop.simps) (simp add: is_whitespace_def Let_def)

lemma lex_loop_paren_step:
  "i < length p \<Longrightarrow> is_paren (p ! i) \<Longrightarrow>
   lex_loop p i ts = lex_loop p (i + 1) (ts @ [\<lparr>tvalue = [p ! i], tkind = Syntax\<rparr>])"
  by (subst lex_loop.simps) (auto simp: is_paren_def Let_def)

lemma lex_loop_integer_step:
  assumes "i < length p" "is_digit (p ! i)"
  shows "lex_loop p i ts =
     lex_loop p (lexInteger_loop p i)
       (ts @ [\<lparr>tvalue = substring p i (lexInteger_loop p i), tkind = Integer\<rparr>])"
proof -
  have "lexInteger_loop p i = lexInteger_loop p (i + 1)"
    using assms by (subst lexInteger_loop.simps) simp
  then have gt: "i < lexInteger_loop p i"
    using lexInteger_loop_ge [of "i + 1" p] by simp
  have cls: "\<not> is_whitespace (p ! i)" "\<not> is_paren (p ! i)"
    using digit_classes [OF assms(2)] by simp_all
  show ?thesis
    using assms(1) cls gt
    by (subst lex_loop.simps)
       (simp add: is_whitespace_def is_paren_def Let_def lexInteger_def)
qed

lemma lex_loop_identifier_step:
  assumes "i < length p" "is_letter (p ! i) \<or> is_operator (p ! i)"
  shows "lex_loop p i ts =
     lex_loop p (lexIdentifier_loop p i i)
       (ts @ [\<lparr>tvalue = substring p i (lexIdentifier_loop p i i), tkind = Identifier\<rparr>])"
proof -
  have cls: "\<not> is_whitespace (p ! i)" "\<not> is_paren (p ! i)" "\<not> is_digit (p ! i)"
    using assms(2) letter_classes operator_classes by blast+
  have int: "lexInteger_loop p i = i"
    using cls(3) by (subst lexInteger_loop.simps) simp
  have "lexIdentifier_loop p i i = lexIdentifier_loop p i (i + 1)"
    using assms by (rule lexIdentifier_loop_start)
  then have gt: "i < lexIdentifier_loop p i i"
    using lexIdentifier_loop_ge [of "i + 1" p i] by simp
  show ?thesis
    using assms(1) cls int gt
    by (subst lex_loop.simps)
       (simp add: is_whitespace_def is_paren_def Let_def lexInteger_def lexIdentifier_def)
qed

lemma substring_middle: "substring (pre @ l @ rest) (length pre) (length pre + length l) = l"
  by (simp add: substring_def)

lemma scan_integer:
  assumes "valid_integer l" "ends_lexeme rest"
  shows "lexInteger_loop (pre @ l @ rest) (length pre) = length pre + length l"
proof (rule lexInteger_loop_run)
  show "\<forall>k < length l. length pre + k < length (pre @ l @ rest) \<and>
          is_digit ((pre @ l @ rest) ! (length pre + k))"
    using assms(1) by (auto simp: valid_integer_def list_all_length nth_append)
  show "length (pre @ l @ rest) \<le> length pre + length l \<or>
        \<not> is_digit ((pre @ l @ rest) ! (length pre + length l))"
  proof (cases rest)
    case Nil
    then show ?thesis by simp
  next
    case (Cons c cs)
    with assms(2) have "is_whitespace c" by (simp add: ends_lexeme_def)
    then have "\<not> is_digit c" using digit_classes by blast
    with Cons show ?thesis by (simp add: nth_append)
  qed
qed

lemma scan_identifier:
  assumes "valid_identifier l" "ends_lexeme rest"
  shows "lexIdentifier_loop (pre @ l @ rest) (length pre) (length pre) = length pre + length l"
proof -
  let ?p = "pre @ l @ rest"
  from assms(1) obtain c cs where l: "l = c # cs" and c: "is_letter c \<or> is_operator c"
    and cs: "list_all is_ident_char cs"
    by (cases l) (auto simp: valid_identifier_def)
  have "lexIdentifier_loop ?p (length pre) (length pre) =
        lexIdentifier_loop ?p (length pre) (length pre + 1)"
    using c l by (intro lexIdentifier_loop_start) (simp_all add: nth_append)
  also have "\<dots> = length pre + 1 + length cs"
  proof (rule lexIdentifier_loop_run)
    show "length pre < length pre + 1" by simp
    show "\<forall>k < length cs. length pre + 1 + k < length ?p \<and>
            is_ident_char (?p ! (length pre + 1 + k))"
      using cs l by (auto simp: list_all_length nth_append)
    show "length ?p \<le> length pre + 1 + length cs \<or>
          \<not> is_ident_char (?p ! (length pre + 1 + length cs))"
    proof (cases rest)
      case Nil
      then show ?thesis using l by simp
    next
      case (Cons d ds)
      with assms(2) have "is_whitespace d" by (simp add: ends_lexeme_def)
      then have "\<not> is_ident_char d" using whitespace_classes by blast
      with Cons l show ?thesis by (simp add: nth_append)
    qed
  qed
  finally show ?thesis using l by simp
qed

lemma valid_integer_not_syntax: "valid_integer l \<Longrightarrow> \<not> valid_syntax l"
  using digit_classes [of "CHR ''(''"] digit_classes [of "CHR '')''"]
  by (auto simp: valid_integer_def valid_syntax_def is_paren_def)

lemma valid_identifier_not_other:
  "valid_identifier l \<Longrightarrow> \<not> valid_syntax l \<and> \<not> valid_integer l"
proof -
  assume v: "valid_identifier l"
  then obtain c cs where l: "l = c # cs" and c: "is_letter c \<or> is_operator c"
    by (cases l) (auto simp: valid_identifier_def)
  then have "\<not> is_paren c" "\<not> is_digit c"
    using letter_classes operator_classes by blast+
  with l show ?thesis
    by (auto simp: valid_syntax_def valid_integer_def is_paren_def)
qed

lemma lex_loop_lexeme:
  assumes "valid_lexeme l" "ends_lexeme rest"
  shows "lex_loop (pre @ l @ rest) (length pre) ts =
         lex_loop (pre @ l @ rest) (length pre + length l) (ts @ [token_of l])"
proof -
  let ?p = "pre @ l @ rest"
  from assms(1) consider (k_int) "valid_integer l" | (k_ident) "valid_identifier l" | (k_paren) "valid_syntax l"
    by (auto simp: valid_lexeme_def)
  then show ?thesis
  proof cases
    case k_int
    then have "l \<noteq> []" "is_digit (hd l)"
      by (auto simp: valid_integer_def list_all_iff)
    then have "length pre < length ?p" "is_digit (?p ! length pre)"
      by (simp_all add: nth_append hd_conv_nth)
    then show ?thesis
      using scan_integer [OF k_int assms(2), of pre] valid_integer_not_syntax [OF k_int] k_int
      by (simp add: lex_loop_integer_step substring_middle token_of_def)
  next
    case k_ident
    then have "l \<noteq> []" "is_letter (hd l) \<or> is_operator (hd l)"
      by (auto simp: valid_identifier_def)
    then have "length pre < length ?p" "is_letter (?p ! length pre) \<or> is_operator (?p ! length pre)"
      by (simp_all add: nth_append hd_conv_nth)
    then show ?thesis
      using scan_identifier [OF k_ident assms(2), of pre] valid_identifier_not_other [OF k_ident]
      by (simp add: lex_loop_identifier_step substring_middle token_of_def)
  next
    case k_paren
    then obtain c where l: "l = [c]" and c: "is_paren c"
      by (auto simp: valid_syntax_def is_paren_def)
    then have "length pre < length ?p" "is_paren (?p ! length pre)" "?p ! length pre = c"
      by (simp_all add: nth_append)
    then show ?thesis
      using k_paren l by (simp add: lex_loop_paren_step token_of_def)
  qed
qed

lemma lex_loop_whitespace_run:
  "list_all is_whitespace w \<Longrightarrow>
   lex_loop (pre @ w @ rest) (length pre) ts = lex_loop (pre @ w @ rest) (length pre + length w) ts"
proof (induction w arbitrary: pre)
  case Nil
  then show ?case by simp
next
  case (Cons c w)
  have "lex_loop (pre @ (c # w) @ rest) (length pre) ts =
        lex_loop (pre @ (c # w) @ rest) (length pre + 1) ts"
    using Cons.prems by (intro lex_loop_whitespace_step) (simp_all add: nth_append)
  also have "\<dots> = lex_loop ((pre @ [c]) @ w @ rest) (length (pre @ [c])) ts" by simp
  also have "\<dots> = lex_loop ((pre @ [c]) @ w @ rest) (length (pre @ [c]) + length w) ts"
    using Cons.prems by (intro Cons.IH) simp
  finally show ?case by simp
qed

lemma lex_loop_join:
  "valid_lexeme l \<Longrightarrow> \<forall>(w, l') \<in> set rest. separator w \<and> valid_lexeme l' \<Longrightarrow>
   lex_loop (pre @ join l rest) (length pre) ts = Inr (ts @ map token_of (l # map snd rest))"
proof (induction rest arbitrary: pre l ts)
  case Nil
  have "lex_loop (pre @ l @ []) (length pre) ts =
        lex_loop (pre @ l @ []) (length pre + length l) (ts @ [token_of l])"
    using Nil.prems(1) by (intro lex_loop_lexeme) (simp_all add: ends_lexeme_def)
  then show ?case by (simp add: lex_loop_end)
next
  case (Cons wl rest)
  obtain w l' where wl: "wl = (w, l')" by (cases wl)
  with Cons.prems(2) have w: "separator w" and l': "valid_lexeme l'"
    and rest: "\<forall>(w, l') \<in> set rest. separator w \<and> valid_lexeme l'"
    by auto
  let ?tail = "w @ join l' rest"
  let ?p = "pre @ l @ ?tail"
  have "ends_lexeme ?tail"
    using w by (cases w) (auto simp: ends_lexeme_def separator_def)
  with Cons.prems(1)
  have "lex_loop ?p (length pre) ts = lex_loop ?p (length pre + length l) (ts @ [token_of l])"
    by (rule lex_loop_lexeme)
  also have "\<dots> = lex_loop ((pre @ l) @ w @ join l' rest) (length (pre @ l)) (ts @ [token_of l])"
    by simp
  also have "\<dots> = lex_loop ((pre @ l) @ w @ join l' rest) (length (pre @ l) + length w)
                      (ts @ [token_of l])"
    using w by (intro lex_loop_whitespace_run) (simp add: separator_def)
  also have "\<dots> = lex_loop ((pre @ l @ w) @ join l' rest) (length (pre @ l @ w)) (ts @ [token_of l])"
    by (simp add: add.assoc)
  also have "\<dots> = Inr ((ts @ [token_of l]) @ map token_of (l' # map snd rest))"
    using l' rest by (rule Cons.IH)
  finally show ?case using wl by simp
qed

text \<open>
  Claim C8. For every sequence of valid integer, identifier and syntax lexemes joined into
  one string with non-empty whitespace runs between them, \<^verbatim>\<open>lex\<close> returns exactly the
  tokens of the lexemes, in their order, each with its kind and its text; the result is the
  same whatever whitespace characters and run lengths separate the lexemes.
\<close>

theorem lex_joined_lexemes:
  "(valid_lexeme l \<and> (\<forall>(w, l') \<in> set rest. separator w \<and> valid_lexeme l') \<longrightarrow>
      lex (join l rest) = Inr (map token_of (l # map snd rest))) \<and>
   (valid_lexeme l \<and> (\<forall>(w, l') \<in> set rest. separator w \<and> valid_lexeme l') \<and>
    (\<forall>(w, l') \<in> set rest'. separator w \<and> valid_lexeme l') \<and> map snd rest' = map snd rest \<longrightarrow>
      lex (join l rest') = lex (join l rest))"
proof -
  have 1: "lex (join l r) = Inr (map token_of (l # map snd r))"
    if "valid_lexeme l" "\<forall>(w, l') \<in> set r. separator w \<and> valid_lexeme l'" for r
    using lex_loop_join [OF that, of "[]" "[]"] by (simp add: lex_def)
  have "map (token_of \<circ> snd) rest' = map (token_of \<circ> snd) rest"
    if "map snd rest' = map snd rest"
    using that by (metis map_map)
  then show ?thesis using 1 [of rest] 1 [of rest'] by auto
qed


theorem lex_joined_lexemes_witness:
  "lex (join ''('' [(''  '', ''def''), ([CHR 0x0A], ''x1''), ([CHR 0x09, CHR '' ''], ''42''),
                    ([CHR 0x0D], ''<=''), ('' '', '')'')]) =
     Inr [\<lparr>tvalue = ''('', tkind = Syntax\<rparr>, \<lparr>tvalue = ''def'', tkind = Identifier\<rparr>,
          \<lparr>tvalue = ''x1'', tkind = Identifier\<rparr>, \<lparr>tvalue = ''42'', tkind = Integer\<rparr>,
          \<lparr>tvalue = ''<='', tkind = Identifier\<rparr>, \<lparr>tvalue = '')'', tkind = Syntax\<rparr>] \<and>
   lex (join ''('' [('' '', ''def''), ('' '', ''x1''), ('' '', ''42''), ('' '', ''<=''), ('' '', '')'')]) =
   lex (join ''('' [(''  '', ''def''), ([CHR 0x0A], ''x1''), ([CHR 0x09, CHR '' ''], ''42''),
                    ([CHR 0x0D], ''<=''), ('' '', '')'')])"
proof -
  let ?rest = "[(''  '', ''def''), ([CHR 0x0A], ''x1''), ([CHR 0x09, CHR '' ''], ''42''),
                ([CHR 0x0D], ''<=''), ('' '', '')'')]"
  let ?rest' = "[('' '', ''def''), ('' '', ''x1''), ('' '', ''42''), ('' '', ''<=''), ('' '', '')'')]"
  have l: "valid_lexeme ''(''" by code_simp
  have r: "\<forall>(w, l') \<in> set ?rest. separator w \<and> valid_lexeme l'" by code_simp
  have r': "\<forall>(w, l') \<in> set ?rest'. separator w \<and> valid_lexeme l'" by code_simp
  have m: "map snd ?rest' = map snd ?rest" by simp
  have t: "map token_of (''('' # map snd ?rest) =
     [\<lparr>tvalue = ''('', tkind = Syntax\<rparr>, \<lparr>tvalue = ''def'', tkind = Identifier\<rparr>,
      \<lparr>tvalue = ''x1'', tkind = Identifier\<rparr>, \<lparr>tvalue = ''42'', tkind = Integer\<rparr>,
      \<lparr>tvalue = ''<='', tkind = Identifier\<rparr>, \<lparr>tvalue = '')'', tkind = Syntax\<rparr>]"
    by code_simp
  from lex_joined_lexemes [of "''(''" ?rest ?rest'] l r r' m t
  show ?thesis by presburger
qed


end
